theory Spec2Isabelle
  imports Main "HOL-Library.Multiset" "HOL-Library.AList" "HOL-Library.Sublist"
begin

section \<open>Go values used by the SMTP server\<close>

text \<open>
  A Go \<^verbatim>\<open>string\<close> is a sequence of bytes; it is modelled as a \<^typ>\<open>string\<close>
  (a list of 8-bit characters).  A Go \<^verbatim>\<open>error\<close> is modelled by its message
  together with the one fact the server ever asks of an error value, namely whether
  \<^verbatim>\<open>errors.Is(err, io.EOF)\<close> holds for it.
\<close>

datatype go_error = GoError (wrapsEOF: bool) (message: string)

definition errors_New :: "string \<Rightarrow> go_error" where
  "errors_New msg = GoError False msg"

text \<open>\<^verbatim>\<open>fmt.Errorf(prefix + "%w", err)\<close>: the message is prefixed, the wrapped error
  stays reachable for \<^verbatim>\<open>errors.Is\<close>.\<close>

definition Errorf_w :: "string \<Rightarrow> go_error \<Rightarrow> go_error" where
  "Errorf_w pre err = GoError (wrapsEOF err) (pre @ message err)"

definition CR :: char where "CR = CHR 0x0D"
definition LF :: char where "LF = CHR 0x0A"
definition CRLF :: string where "CRLF = [CR, LF]"

subsection \<open>Package \<^verbatim>\<open>strings\<close>\<close>

definition HasPrefix :: "string \<Rightarrow> string \<Rightarrow> bool" where
  "HasPrefix s pre = (take (length pre) s = pre)"

definition HasSuffix :: "string \<Rightarrow> string \<Rightarrow> bool" where
  "HasSuffix s suf = (length suf \<le> length s \<and> drop (length s - length suf) s = suf)"

text \<open>\<^verbatim>\<open>strings.Index\<close>: the byte offset of the leftmost occurrence; Go's \<^verbatim>\<open>-1\<close> is
  \<^term>\<open>None\<close>.\<close>

fun Index :: "string \<Rightarrow> string \<Rightarrow> nat option" where
  "Index [] sep = (if sep = [] then Some 0 else None)"
| "Index (c # cs) sep =
     (if HasPrefix (c # cs) sep then Some 0 else map_option Suc (Index cs sep))"

text \<open>\<^verbatim>\<open>strings.SplitN(s, sep, n)\<close> for a non-empty separator: at most \<open>n\<close> pieces, the
  last one being the unsplit remainder.  (With an empty separator Go splits after
  each UTF-8 sequence; the server only splits on the constants \<^verbatim>\<open>":"\<close> and
  \<^verbatim>\<open>"\r\n\r\n"\<close>.)\<close>

fun SplitN :: "string \<Rightarrow> string \<Rightarrow> nat \<Rightarrow> string list" where
  "SplitN s sep 0 = []"
| "SplitN s sep (Suc 0) = [s]"
| "SplitN s sep (Suc (Suc n)) =
     (case Index s sep of
        None \<Rightarrow> [s]
      | Some i \<Rightarrow> take i s # SplitN (drop (i + length sep) s) sep (Suc n))"

lemma Index_bound: "Index s sep = Some i \<Longrightarrow> i + length sep \<le> length s"
proof (induction s arbitrary: i)
  case Nil
  then show ?case by (simp split: if_splits)
next
  case (Cons c cs)
  show ?case
  proof (cases "HasPrefix (c # cs) sep")
    case True
    then have "length (take (length sep) (c # cs)) = length sep"
      by (simp only: HasPrefix_def)
    then have "length sep \<le> length (c # cs)"
      by simp
    with True Cons.prems show ?thesis by simp
  next
    case False
    with Cons.prems obtain j where "Index cs sep = Some j" "i = Suc j" by auto
    with Cons.IH show ?thesis by simp
  qed
qed

text \<open>\<^verbatim>\<open>strings.Split(s, sep)\<close>: all pieces between the non-overlapping occurrences
  of a non-empty separator, found left to right.  (The server splits on \<^verbatim>\<open>"\r\n"\<close>
  only; for the empty separator the model gives the bytes of \<open>s\<close>.)\<close>

function Split :: "string \<Rightarrow> string \<Rightarrow> string list" where
  "Split s sep =
     (if sep = [] then map (\<lambda>c. [c]) s
      else case Index s sep of
             None \<Rightarrow> [s]
           | Some i \<Rightarrow> take i s # Split (drop (i + length sep) s) sep)"
  by pat_completeness auto
termination
proof (relation "measure (\<lambda>(s, sep). length s)")
  show "wf (measure (\<lambda>(s, sep). length s))" by simp
next
  fix s sep :: string and i :: nat
  assume ne: "sep \<noteq> []" and ix: "Index s sep = Some i"
  from ne have "0 < length sep"
    by simp
  with Index_bound [OF ix] have "length s - (i + length sep) < length s"
    by linarith
  then show "((drop (i + length sep) s, sep), (s, sep)) \<in> measure (\<lambda>(s, sep). length s)"
    by simp
qed

declare Split.simps [simp del]

text \<open>\<^verbatim>\<open>strings.Trim(s, cutset)\<close> for an ASCII cutset: every leading and every trailing
  byte that occurs in the cutset is removed.\<close>

definition Trim :: "string \<Rightarrow> string \<Rightarrow> string" where
  "Trim s cutset =
     rev (dropWhile (\<lambda>c. c \<in> set cutset) (rev (dropWhile (\<lambda>c. c \<in> set cutset) s)))"

text \<open>
  \<^verbatim>\<open>strings.TrimSpace\<close> removes leading and trailing white space as defined by
  Unicode.  On the UTF-8 bytes of a Go string these are the six ASCII bytes
  \<^verbatim>\<open>\t \n \v \f \r\<close> and space, and the encodings of U+0085, U+00A0, U+1680,
  U+2000 to U+200A, U+2028, U+2029, U+202F, U+205F and U+3000.  A byte sequence that
  is not valid UTF-8 decodes to U+FFFD, which is not white space, and stops the
  trimming.
\<close>

definition asciiSpace :: "char \<Rightarrow> bool" where
  "asciiSpace c = (c \<in> set [CHR 0x09, CHR 0x0A, CHR 0x0B, CHR 0x0C, CHR 0x0D, CHR 0x20])"

definition unicodeSpaces :: "string list" where
  "unicodeSpaces =
     [[CHR 0xC2, CHR 0x85], [CHR 0xC2, CHR 0xA0], [CHR 0xE1, CHR 0x9A, CHR 0x80],
      [CHR 0xE2, CHR 0x80, CHR 0x80], [CHR 0xE2, CHR 0x80, CHR 0x81],
      [CHR 0xE2, CHR 0x80, CHR 0x82], [CHR 0xE2, CHR 0x80, CHR 0x83],
      [CHR 0xE2, CHR 0x80, CHR 0x84], [CHR 0xE2, CHR 0x80, CHR 0x85],
      [CHR 0xE2, CHR 0x80, CHR 0x86], [CHR 0xE2, CHR 0x80, CHR 0x87],
      [CHR 0xE2, CHR 0x80, CHR 0x88], [CHR 0xE2, CHR 0x80, CHR 0x89],
      [CHR 0xE2, CHR 0x80, CHR 0x8A], [CHR 0xE2, CHR 0x80, CHR 0xA8],
      [CHR 0xE2, CHR 0x80, CHR 0xA9], [CHR 0xE2, CHR 0x80, CHR 0xAF],
      [CHR 0xE2, CHR 0x81, CHR 0x9F], [CHR 0xE3, CHR 0x80, CHR 0x80]]"

text \<open>The width in bytes of the white-space rune a string starts (ends) with, or 0.\<close>

definition leadingSpace :: "string \<Rightarrow> nat" where
  "leadingSpace s =
     (case s of
        [] \<Rightarrow> 0
      | c # _ \<Rightarrow>
          if asciiSpace c then 1
          else (case find (HasPrefix s) unicodeSpaces of None \<Rightarrow> 0 | Some u \<Rightarrow> length u))"

definition trailingSpace :: "string \<Rightarrow> nat" where
  "trailingSpace s =
     (if s = [] then 0
      else if asciiSpace (last s) then 1
      else (case find (HasSuffix s) unicodeSpaces of None \<Rightarrow> 0 | Some u \<Rightarrow> length u))"

function TrimLeftSpace :: "string \<Rightarrow> string" where
  "TrimLeftSpace s =
     (if leadingSpace s = 0 then s else TrimLeftSpace (drop (leadingSpace s) s))"
  by pat_completeness auto
termination
  by (relation "measure length") (auto simp: leadingSpace_def split: list.splits)

function TrimRightSpace :: "string \<Rightarrow> string" where
  "TrimRightSpace s =
     (if trailingSpace s = 0 then s
      else TrimRightSpace (take (length s - trailingSpace s) s))"
  by pat_completeness auto
termination
  by (relation "measure length") (auto simp: trailingSpace_def split: if_splits)

declare TrimLeftSpace.simps [simp del] TrimRightSpace.simps [simp del]

definition TrimSpace :: "string \<Rightarrow> string" where
  "TrimSpace s = TrimRightSpace (TrimLeftSpace s)"

text \<open>
  \<^verbatim>\<open>strings.EqualFold(s, t)\<close> compares under Unicode simple case folding.  The
  server only calls it with an ASCII constant as \<open>t\<close>; for such a \<open>t\<close> the result
  on the bytes of \<open>s\<close> is: each ASCII byte of \<open>s\<close> must equal the byte of \<open>t\<close> up to
  the case of a letter, and the only non-ASCII runes that fold to an ASCII letter are
  U+017F (to \<^verbatim>\<open>s\<close>, bytes C5 BF) and U+212A (to \<^verbatim>\<open>k\<close>, bytes E2 84 AA).
\<close>

definition lowerASCII :: "char \<Rightarrow> char" where
  "lowerASCII c =
     (if 65 \<le> (of_char c :: nat) \<and> (of_char c :: nat) \<le> 90
      then char_of ((of_char c :: nat) + 32) else c)"

fun EqualFold :: "string \<Rightarrow> string \<Rightarrow> bool" where
  "EqualFold [] [] = True"
| "EqualFold [] (b # t) = False"
| "EqualFold (a # s) [] = False"
| "EqualFold (a # s) (b # t) =
     (if (of_char a :: nat) < 128 then lowerASCII a = lowerASCII b \<and> EqualFold s t
      else if lowerASCII b = CHR ''s'' then
        (case s of
           a2 # s' \<Rightarrow> a = CHR 0xC5 \<and> a2 = CHR 0xBF \<and> EqualFold s' t
         | [] \<Rightarrow> False)
      else if lowerASCII b = CHR ''k'' then
        (case s of
           a2 # a3 # s' \<Rightarrow> a = CHR 0xE2 \<and> a2 = CHR 0x84 \<and> a3 = CHR 0xAA \<and> EqualFold s' t
         | _ \<Rightarrow> False)
      else False)"

subsection \<open>Packages \<^verbatim>\<open>mime\<close> and \<^verbatim>\<open>mime/multipart\<close>\<close>

text \<open>
  The two standard-library parsers the server calls are parameters of the model.
  \<^item> \<open>mime_ParseMediaType v\<close> is the triple \<^verbatim>\<open>mediatype, params, err\<close> that
    \<^verbatim>\<open>mime.ParseMediaType(v)\<close> returns for a non-empty \<open>v\<close>.
  \<^item> \<open>multipart_Reader body boundary\<close> is the sequence of results that successive calls of
    \<^verbatim>\<open>NextPart\<close> give on \<^verbatim>\<open>multipart.NewReader(body, boundary)\<close> for a non-empty
    boundary: either an error, or a part with its Content-Type header and the result of
    \<^verbatim>\<open>io.ReadAll\<close> on it.  After the last element \<^verbatim>\<open>NextPart\<close> returns
    \<^verbatim>\<open>io.EOF\<close>.
\<close>

datatype part = Part (partContentType: string) (partData: "go_error + string")

record golib =
  mime_ParseMediaType :: "string \<Rightarrow> string \<times> (string \<rightharpoonup> string) \<times> go_error option"
  multipart_Reader :: "string \<Rightarrow> string \<Rightarrow> (go_error + part) list"

text \<open>On the empty string \<^verbatim>\<open>mime.ParseMediaType\<close> returns the empty media type, a
  nil map and the error \<^verbatim>\<open>mime: no media type\<close>.\<close>

definition ParseMediaType ::
  "golib \<Rightarrow> string \<Rightarrow> string \<times> (string \<rightharpoonup> string) \<times> go_error option" where
  "ParseMediaType lib v =
     (if v = [] then ([], Map.empty, Some (errors_New ''mime: no media type''))
      else mime_ParseMediaType lib v)"

text \<open>With an empty boundary every \<^verbatim>\<open>NextPart\<close> fails with
  \<^verbatim>\<open>multipart: boundary is empty\<close>.\<close>

definition NewReader :: "golib \<Rightarrow> string \<Rightarrow> string \<Rightarrow> (go_error + part) list" where
  "NewReader lib body boundary =
     (if boundary = [] then [Inl (errors_New ''multipart: boundary is empty'')]
      else multipart_Reader lib body boundary)"

text \<open>Reading a Go map at a key: the zero value when the key is absent (also on a nil
  map).\<close>

definition mapIndex :: "(string \<rightharpoonup> string) \<Rightarrow> string \<Rightarrow> string" where
  "mapIndex m k = (case m k of None \<Rightarrow> [] | Some v \<Rightarrow> v)"

section \<open>The server\<close>

text \<open>\<^verbatim>\<open>MailMessage\<close> represents the parsed mail data.\<close>

record MailMessage =
  From :: string
  To :: string
  Subject :: string
  PlainText :: string
  HTMLText :: string

subsection \<open>Address parsing\<close>

text \<open>\<^verbatim>\<open>parseAddress\<close> handles the MAIL FROM and RCPT TO command lines.\<close>

definition parseAddress :: "string \<Rightarrow> go_error + string" where
  "parseAddress line =
     (let parts = SplitN line '':'' 2 in
      if length parts < 2 then Inl (errors_New ''invalid RCPT TO syntax'')
      else let address = TrimSpace (parts ! 1) in Inr (Trim address ''<>''))"

subsection \<open>Parsing the raw mail data\<close>

text \<open>
  The header map \<^verbatim>\<open>map[string]string\<close> is an association list with distinct keys;
  the assignment \<^verbatim>\<open>headers[key] = value\<close> is \<^const>\<open>AList.update\<close>.
\<close>

type_synonym header_map = "(string \<times> string) list"

text \<open>The loop of \<^verbatim>\<open>parseHeadersAndBody\<close> over the lines of the header block.\<close>

fun parseHeaderLines :: "string list \<Rightarrow> header_map \<Rightarrow> go_error + header_map" where
  "parseHeaderLines [] headers = Inr headers"
| "parseHeaderLines (line # lines) headers =
     (case Index line '':'' of
        None \<Rightarrow> Inl (errors_New (''invalid header format: '' @ line))
      | Some colonIndex \<Rightarrow>
          (let key = TrimSpace (take colonIndex line);
               val = TrimSpace (drop (colonIndex + 1) line)
           in parseHeaderLines lines (AList.update key val headers)))"

text \<open>\<^verbatim>\<open>parseHeadersAndBody\<close> splits raw mail data into headers and body.\<close>

definition parseHeadersAndBody :: "string \<Rightarrow> go_error + (header_map \<times> string)" where
  "parseHeadersAndBody data =
     (let parts = SplitN data (CRLF @ CRLF) 2 in
      if length parts < 2
      then Inl (errors_New ''invalid mail format: missing headers or body'')
      else (case parseHeaderLines (Split (parts ! 0) CRLF) [] of
              Inl err \<Rightarrow> Inl err
            | Inr headers \<Rightarrow> Inr (headers, parts ! 1)))"

text \<open>
  \<^verbatim>\<open>getHeader\<close> is the case-insensitive header lookup: it ranges over the map and
  returns the value of the first key it meets that folds to the wanted one.  Go leaves
  the order of a \<^verbatim>\<open>range\<close> over a map unspecified, and it may differ from one loop to
  the next; the model takes the order in which this loop visits the entries as the
  argument \<open>visit\<close>, which rearranges the entries of the map.
\<close>

definition getHeader :: "(header_map \<Rightarrow> header_map) \<Rightarrow> header_map \<Rightarrow> string \<Rightarrow> string" where
  "getHeader visit headers key =
     (case find (\<lambda>(k, v). EqualFold k key) (visit headers) of
        None \<Rightarrow> []
      | Some (k, v) \<Rightarrow> v)"

text \<open>A visiting order is admissible when it visits every entry exactly once.\<close>

definition rangeOrder :: "(header_map \<Rightarrow> header_map) \<Rightarrow> bool" where
  "rangeOrder visit = (\<forall>headers. mset (visit headers) = mset headers)"

text \<open>
  \<^verbatim>\<open>processMultipartMessage\<close> processes a multipart message and populates the
  MailMessage fields.  The argument is the sequence of parts the multipart reader
  yields.  The message is returned only when the function returns no error, as its
  caller drops the message otherwise.
\<close>

fun processMultipartMessage :: "(go_error + part) list \<Rightarrow> MailMessage \<Rightarrow> go_error + MailMessage" where
  "processMultipartMessage [] mailMessage = Inr mailMessage"
| "processMultipartMessage (Inl err # rest) mailMessage =
     (if wrapsEOF err then Inr mailMessage
      else Inl (Errorf_w ''error reading multipart message: '' err))"
| "processMultipartMessage (Inr p # rest) mailMessage =
     (case partData p of
        Inl err \<Rightarrow>
          (if wrapsEOF (Errorf_w ''error reading part: '' err) then Inr mailMessage
           else Inl (Errorf_w ''error reading part: '' err))
      | Inr data \<Rightarrow>
          processMultipartMessage rest
            (if HasPrefix (partContentType p) ''text/plain''
             then mailMessage\<lparr>PlainText := TrimSpace data\<rparr>
             else if HasPrefix (partContentType p) ''text/html''
             then mailMessage\<lparr>HTMLText := TrimSpace data\<rparr>
             else mailMessage))"

text \<open>
  \<^verbatim>\<open>parseMailData\<close> parses the raw mail data into a MailMessage.  The argument
  \<open>visit\<close> gives, for each of the four header lookups, the order in which its loop
  visits the header map.
\<close>

definition parseMailData ::
  "golib \<Rightarrow> (string \<Rightarrow> header_map \<Rightarrow> header_map) \<Rightarrow> string \<Rightarrow> go_error + MailMessage" where
  "parseMailData lib visit data =
     (case parseHeadersAndBody data of
        Inl err \<Rightarrow> Inl err
      | Inr (headers, body) \<Rightarrow>
          (let from' = getHeader (visit ''From'') headers ''From'';
               to' = getHeader (visit ''To'') headers ''To'';
               subject = getHeader (visit ''Subject'') headers ''Subject'';
               contentType = getHeader (visit ''Content-Type'') headers ''Content-Type''
           in case ParseMediaType lib contentType of
                (mediaType, params, err) \<Rightarrow>
                  (case (if contentType \<noteq> [] then err else None) of
                     Some e \<Rightarrow> Inl (Errorf_w ''error parsing Content-Type: '' e)
                   | None \<Rightarrow>
                       (let mailMessage =
                              \<lparr>From = from', To = to', Subject = subject,
                               PlainText = [], HTMLText = []\<rparr>
                        in if HasPrefix mediaType ''multipart/''
                           then processMultipartMessage
                                  (NewReader lib body (mapIndex params ''boundary'')) mailMessage
                           else Inr (mailMessage\<lparr>PlainText := body\<rparr>)))))"

subsection \<open>The connection\<close>

text \<open>
  The server and what surrounds it: the callback, the library, the order of each map
  traversal (indexed by the number of messages parsed before on the connection and by
  the header looked up), and the errors the connection reports when a read or a write
  fails.
\<close>

record server =
  callBackFn :: "MailMessage \<Rightarrow> go_error option"
  lib :: golib
  mapOrder :: "nat \<Rightarrow> string \<Rightarrow> header_map \<Rightarrow> header_map"
  readErr :: go_error
  writeErr :: go_error
  deadlineErr :: "go_error option"

text \<open>
  The state of one run of \<^verbatim>\<open>handleConnection\<close>.
  \<^item> \<open>mailFrom\<close> and \<open>rcptTo\<close> are its variables \<^verbatim>\<open>from\<close> and \<^verbatim>\<open>to\<close>.
  \<^item> \<open>input\<close> holds the lines that \<^verbatim>\<open>reader.ReadString('\n')\<close> is still to return,
    each with its line terminator; once it is empty, reading fails.
  \<^item> \<open>wbuf\<close> is the content of the buffered writer, \<open>sent\<close> what has been flushed to
    the client.  \<open>wops\<close> is the number of writer operations that still succeed: a
    \<^verbatim>\<open>bufio.Writer\<close> that has failed once fails ever after.
  \<^item> \<open>dispatched\<close> records the messages the callback has been invoked with, and
    \<open>parsed\<close> counts the calls of \<^verbatim>\<open>parseMailData\<close>.
\<close>

record session =
  mailFrom :: string
  rcptTo :: string
  input :: "string list"
  wbuf :: "string list"
  sent :: "string list"
  wops :: nat
  dispatched :: "MailMessage list"
  parsed :: nat

text \<open>Both writer operations return whether they failed.\<close>

definition WriteString :: "string \<Rightarrow> session \<Rightarrow> bool \<times> session" where
  "WriteString s st =
     (if wops st = 0 then (True, st)
      else (False, st\<lparr>wbuf := wbuf st @ [s], wops := wops st - 1\<rparr>))"

definition Flush :: "session \<Rightarrow> bool \<times> session" where
  "Flush st =
     (if wops st = 0 then (True, st)
      else (False, st\<lparr>sent := sent st @ wbuf st, wbuf := [], wops := wops st - 1\<rparr>))"

text \<open>What one iteration of the command loop does: it returns from
  \<^verbatim>\<open>handleConnection\<close> with an error or \<^verbatim>\<open>nil\<close>, or goes on to the next line.\<close>

datatype step = Returned "go_error option" session | Next session

text \<open>A writer operation whose error is checked (the function returns it, wrapped) and
  one whose error is dropped.\<close>

definition checked :: "server \<Rightarrow> string \<Rightarrow> bool \<times> session \<Rightarrow> (session \<Rightarrow> step) \<Rightarrow> step" where
  "checked srv label r k =
     (case r of
        (failed, st) \<Rightarrow>
          if failed then Returned (Some (Errorf_w label (writeErr srv))) st else k st)"

definition ignored :: "bool \<times> session \<Rightarrow> (session \<Rightarrow> step) \<Rightarrow> step" where
  "ignored r k = k (snd r)"

text \<open>\<^verbatim>\<open>handleEHLO\<close> handles the EHLO command and sends the list of supported
  extensions; it drops every write error.\<close>

definition handleEHLO :: "session \<Rightarrow> session" where
  "handleEHLO st =
     (let st1 = snd (WriteString (''250-Hello'' @ CRLF) st);
          st2 = fold (\<lambda>ext st'. snd (WriteString (ext @ CRLF) st')) [''250-SIZE 10240000''] st1;
          st3 = snd (WriteString (''250 OK'' @ CRLF) st2)
      in snd (Flush st3))"

text \<open>
  \<^verbatim>\<open>collectMailData\<close> reads the raw mail data from the client until the SMTP end
  marker.  It returns the empty string when a read fails.  The second component is
  the input left to the reader.
\<close>

fun collectLines :: "string list \<Rightarrow> string \<Rightarrow> string option \<times> string list" where
  "collectLines [] mailData = (None, [])"
| "collectLines (line # rest) mailData =
     (if TrimSpace line = ''.'' then (Some mailData, rest)
      else collectLines rest (mailData @ line))"

definition collectMailData :: "string list \<Rightarrow> string \<times> string list" where
  "collectMailData inp =
     (case collectLines inp [] of
        (None, rest) \<Rightarrow> ([], rest)
      | (Some mailData, rest) \<Rightarrow> (TrimSpace mailData, rest))"

text \<open>The body of the \<^verbatim>\<open>DATA\<close> case, after the reply 354 has been flushed.\<close>

definition handleData :: "server \<Rightarrow> session \<Rightarrow> step" where
  "handleData srv st =
     (case collectMailData (input st) of
        (mailData, rest) \<Rightarrow>
          (let st = st\<lparr>input := rest\<rparr> in
           if mailData = [] then
             checked srv ''error writing error message: ''
               (WriteString (''550 Error reading mail data'' @ CRLF) st) (\<lambda>st.
             checked srv ''error flushing writer: '' (Flush st) (\<lambda>st.
             Returned None st))
           else
             (case parseMailData (lib srv) (mapOrder srv (parsed st)) mailData of
                Inl err \<Rightarrow>
                  (let st = st\<lparr>parsed := Suc (parsed st)\<rparr> in
                   checked srv ''error writing error message: ''
                     (WriteString (''550 Error processing mail: '' @ message err @ CRLF) st) (\<lambda>st.
                   checked srv ''error flushing writer: '' (Flush st) (\<lambda>st.
                   Returned None st)))
              | Inr msg \<Rightarrow>
                  (let st = st\<lparr>parsed := Suc (parsed st)\<rparr>;
                       msg = (if From msg \<noteq> mailFrom st then msg\<lparr>From := mailFrom st\<rparr> else msg);
                       msg = (if To msg \<noteq> rcptTo st then msg\<lparr>To := rcptTo st\<rparr> else msg);
                       st = st\<lparr>dispatched := dispatched st @ [msg]\<rparr>
                   in case callBackFn srv msg of
                        Some err \<Rightarrow>
                          ignored (WriteString (''550 Error processing mail: '' @ message err @ CRLF) st) (\<lambda>st.
                          checked srv ''error flushing writer: '' (Flush st) (\<lambda>st.
                          Returned None st))
                      | None \<Rightarrow>
                          ignored (WriteString (''250 OK'' @ CRLF) st) (\<lambda>st.
                          checked srv ''error flushing writer: '' (Flush st) (\<lambda>st.
                          Next st))))))"

text \<open>
  One iteration of the loop of \<^verbatim>\<open>handleConnection\<close>, for the line just read (the
  state no longer holds it).  The cases are tried in the order of the
  \<^verbatim>\<open>switch\<close>.
\<close>

definition commandStep :: "server \<Rightarrow> string \<Rightarrow> session \<Rightarrow> step" where
  "commandStep srv rawLine st =
     (let line = TrimSpace rawLine in
      if HasPrefix line ''EHLO'' then Next (handleEHLO st)
      else if HasPrefix line ''MAIL FROM'' then
        (case parseAddress line of
           Inl err \<Rightarrow>
             (let st = st\<lparr>mailFrom := []\<rparr> in
              checked srv ''error writing error message: ''
                (WriteString (''550 Error: '' @ message err @ CRLF) st) (\<lambda>st.
              checked srv ''error flushing writer: '' (Flush st) (\<lambda>st.
              Returned None st)))
         | Inr addr \<Rightarrow>
             (let st = st\<lparr>mailFrom := addr\<rparr> in
              checked srv ''error writing OK response: '' (WriteString (''250 OK'' @ CRLF) st) (\<lambda>st.
              checked srv ''error flushing writer: '' (Flush st) (\<lambda>st.
              Next st))))
      else if HasPrefix line ''RCPT TO'' then
        (case parseAddress line of
           Inl err \<Rightarrow>
             (let st = st\<lparr>rcptTo := []\<rparr> in
              checked srv ''error writing error message: ''
                (WriteString (''550 Error: '' @ message err @ CRLF) st) (\<lambda>st.
              checked srv ''error flushing writer: '' (Flush st) (\<lambda>st.
              Returned None st)))
         | Inr addr \<Rightarrow>
             (let st = st\<lparr>rcptTo := addr\<rparr> in
              ignored (WriteString (''250 OK'' @ CRLF) st) (\<lambda>st.
              checked srv ''error flushing writer: '' (Flush st) (\<lambda>st.
              Next st))))
      else if HasPrefix line ''DATA'' then
        checked srv ''error flushing writer: ''
          (WriteString (''354 Start mail input; end with <CRLF>.<CRLF>'' @ CRLF) st) (\<lambda>st.
        checked srv ''error flushing writer: '' (Flush st) (\<lambda>st.
        handleData srv st))
      else if HasPrefix line ''QUIT'' then
        checked srv ''error writing QUIT response: '' (WriteString (''221 Bye'' @ CRLF) st) (\<lambda>st.
        checked srv ''error flushing writer: '' (Flush st) (\<lambda>st.
        Returned None st))
      else if HasPrefix line ''NOOP'' then
        ignored (WriteString (''250 OK'' @ CRLF) st) (\<lambda>st.
        checked srv ''error flushing writer: '' (Flush st) (\<lambda>st.
        Next st))
      else if line = ''.'' then Next st
      else
        ignored (WriteString (''250 OK'' @ CRLF) st) (\<lambda>st.
        checked srv ''error flushing writer: '' (Flush st) (\<lambda>st.
        Next st)))"

lemma collectLines_length: "length (snd (collectLines inp acc)) \<le> length inp"
  by (induction inp arbitrary: acc) (auto intro: le_SucI)

lemma collectMailData_length: "length (snd (collectMailData inp)) \<le> length inp"
  using collectLines_length [of inp "[]"]
  by (cases "collectLines inp []") (auto simp: collectMailData_def split: option.splits)

lemma input_WriteString [simp]: "input (snd (WriteString s st)) = input st"
  by (simp add: WriteString_def)

lemma input_Flush [simp]: "input (snd (Flush st)) = input st"
  by (simp add: Flush_def)

lemma input_handleEHLO [simp]: "input (handleEHLO st) = input st"
  by (simp add: handleEHLO_def Let_def)

lemma checked_Next: "checked srv label r k = Next st' \<longleftrightarrow> \<not> fst r \<and> k (snd r) = Next st'"
  by (cases r) (simp add: checked_def)

lemma ignored_Next: "ignored r k = Next st' \<longleftrightarrow> k (snd r) = Next st'"
  by (simp add: ignored_def)

lemma handleData_input:
  assumes "handleData srv st = Next st'"
  shows "length (input st') \<le> length (input st)"
proof -
  obtain mailData rest where c: "collectMailData (input st) = (mailData, rest)"
    by (cases "collectMailData (input st)")
  from collectMailData_length [of "input st"] c have "length rest \<le> length (input st)"
    by simp
  moreover from assms c have "input st' = rest"
    by (auto simp: handleData_def Let_def checked_Next ignored_Next
             split: if_splits sum.splits option.splits)
  ultimately show ?thesis by simp
qed

lemma commandStep_input:
  assumes "commandStep srv rawLine st = Next st'"
  shows "length (input st') \<le> length (input st)"
proof (cases "HasPrefix (TrimSpace rawLine) ''DATA'' \<and> \<not> HasPrefix (TrimSpace rawLine) ''EHLO''
    \<and> \<not> HasPrefix (TrimSpace rawLine) ''MAIL FROM'' \<and> \<not> HasPrefix (TrimSpace rawLine) ''RCPT TO''")
  case True
  with assms obtain st1 where "handleData srv st1 = Next st'" "input st1 = input st"
    by (auto simp: commandStep_def Let_def checked_Next)
  with handleData_input show ?thesis by metis
next
  case False
  with assms have "input st' = input st"
    by (auto simp: commandStep_def Let_def checked_Next ignored_Next
             split: if_splits sum.splits)
  then show ?thesis by simp
qed

text \<open>The loop of \<^verbatim>\<open>handleConnection\<close>; it returns the function's result and the
  final state.\<close>

function commandLoop :: "server \<Rightarrow> session \<Rightarrow> go_error option \<times> session" where
  "commandLoop srv st =
     (case input st of
        [] \<Rightarrow> (Some (Errorf_w ''error reading command: '' (readErr srv)), st)
      | rawLine # rest \<Rightarrow>
          (case commandStep srv rawLine (st\<lparr>input := rest\<rparr>) of
             Returned r st' \<Rightarrow> (r, st')
           | Next st' \<Rightarrow> commandLoop srv st'))"
  by pat_completeness auto
termination
proof (relation "measure (\<lambda>(srv, st). length (input st))")
  show "wf (measure (\<lambda>(srv, st). length (input st)))" by simp
next
  fix srv :: server and st st' :: session and rawLine :: string and rest :: "string list"
  assume "input st = rawLine # rest"
    and "commandStep srv rawLine (st\<lparr>input := rest\<rparr>) = Next st'"
  with commandStep_input [of srv rawLine "st\<lparr>input := rest\<rparr>" st']
  show "((srv, st'), (srv, st)) \<in> measure (\<lambda>(srv, st). length (input st))"
    by simp
qed

declare commandLoop.simps [simp del]

text \<open>
  \<^verbatim>\<open>handleConnection\<close> processes an SMTP client connection, given the lines the
  client sends and the number of writer operations the connection lets succeed.
\<close>

definition handleConnection :: "server \<Rightarrow> string list \<Rightarrow> nat \<Rightarrow> go_error option \<times> session" where
  "handleConnection srv clientLines budget =
     (let st = \<lparr>mailFrom = [], rcptTo = [], input = clientLines, wbuf = [], sent = [],
                wops = budget, dispatched = [], parsed = 0\<rparr>
      in case deadlineErr srv of
           Some err \<Rightarrow> (Some (Errorf_w ''error setting connection deadline: '' err), st)
         | None \<Rightarrow>
             (case checked srv ''error writing welcome message: ''
                     (WriteString (''220 Welcome to the SMTP server'' @ CRLF) st) (\<lambda>st.
                   checked srv ''error flushing writer: '' (Flush st) (\<lambda>st.
                   Next st)) of
                Returned r st' \<Rightarrow> (r, st')
              | Next st' \<Rightarrow> commandLoop srv st'))"

subsection \<open>Shutting down\<close>

text \<open>
  The part of the server that \<^verbatim>\<open>Shutdown\<close> and \<^verbatim>\<open>Close\<close> work on:
  \<^item> \<open>doneClosed\<close>: the channel \<^verbatim>\<open>s.done\<close> has been closed (nothing is ever sent on
    it, so a receive from it succeeds exactly then);
  \<^item> \<open>wg\<close>: the counter of the wait group, the number of sessions in flight;
  \<^item> \<open>listener\<close>: \<^term>\<open>None\<close> while \<^verbatim>\<open>s.listener\<close> is nil, and otherwise the number of
    times the listening socket has been closed.
\<close>

record lifecycle =
  doneClosed :: bool
  wg :: nat
  listener :: "nat option"

text \<open>Closing a listening socket that is closed already reports an error.\<close>

definition listener_Close :: "nat \<Rightarrow> go_error option" where
  "listener_Close n =
     (if n = 0 then None else Some (errors_New ''use of closed network connection''))"

text \<open>\<^verbatim>\<open>Close\<close> shuts down the server.\<close>

definition Close :: "lifecycle \<Rightarrow> go_error option \<times> lifecycle" where
  "Close s =
     (case listener s of
        None \<Rightarrow> (None, s)
      | Some n \<Rightarrow> (listener_Close n, s\<lparr>listener := Some (Suc n)\<rparr>))"

text \<open>
  \<^verbatim>\<open>Shutdown\<close> runs while sessions end and connections are accepted, so it is modelled
  by the steps it takes.  It is at one of three places (the \<^verbatim>\<open>select\<close>, the
  \<^verbatim>\<open>s.wg.Wait()\<close>, the \<^verbatim>\<open>s.Close()\<close>) or it has returned.  A step at the wait makes
  no progress while the counter is not zero.  One call runs at a time, so the
  \<^verbatim>\<open>select\<close> and the \<^verbatim>\<open>close(s.done)\<close> of its default case are one step.
\<close>

datatype shutdown_pc = AtSelect | AtWait | AtClose | Finished "go_error option"

fun ShutdownStep :: "shutdown_pc \<times> lifecycle \<Rightarrow> shutdown_pc \<times> lifecycle" where
  "ShutdownStep (AtSelect, s) =
     (if doneClosed s then (Finished (Some (errors_New ''server already closed'')), s)
      else (AtWait, s\<lparr>doneClosed := True\<rparr>))"
| "ShutdownStep (AtWait, s) = (if wg s = 0 then (AtClose, s) else (AtWait, s))"
| "ShutdownStep (AtClose, s) = (case Close s of (r, s') \<Rightarrow> (Finished r, s'))"
| "ShutdownStep (Finished r, s) = (Finished r, s)"

text \<open>
  What can happen during a call of \<^verbatim>\<open>Shutdown\<close>: the call takes a step; a session
  ends (\<^verbatim>\<open>s.wg.Done()\<close>); the loop of \<^verbatim>\<open>Start\<close> accepts a connection
  (\<^verbatim>\<open>s.wg.Add(1)\<close>), which needs the listening socket to be open.
\<close>

datatype event = ShutdownRuns | SessionEnds | ConnectionAccepted

fun occur :: "event \<Rightarrow> shutdown_pc \<times> lifecycle \<Rightarrow> shutdown_pc \<times> lifecycle" where
  "occur ShutdownRuns c = ShutdownStep c"
| "occur SessionEnds (pc, s) = (pc, if wg s = 0 then s else s\<lparr>wg := wg s - 1\<rparr>)"
| "occur ConnectionAccepted (pc, s) =
     (pc, if listener s = Some 0 then s\<lparr>wg := Suc (wg s)\<rparr> else s)"

definition run :: "event list \<Rightarrow> shutdown_pc \<times> lifecycle \<Rightarrow> shutdown_pc \<times> lifecycle" where
  "run evs c = fold occur evs c"

subsection \<open>Notions used to state the properties\<close>

text \<open>
  The address rule as the specification words it: one leading \<^verbatim>\<open><\<close> and one
  trailing \<^verbatim>\<open>>\<close> are stripped, if present.
\<close>

definition stripOnePair :: "string \<Rightarrow> string" where
  "stripOnePair a =
     (let a1 = (if HasPrefix a ''<'' then drop 1 a else a)
      in if HasSuffix a1 ''>'' then take (length a1 - 1) a1 else a1)"

definition parseAddress_spec :: "string \<Rightarrow> go_error + string" where
  "parseAddress_spec line =
     (case Index line '':'' of
        None \<Rightarrow> Inl (errors_New ''invalid RCPT TO syntax'')
      | Some i \<Rightarrow> Inr (stripOnePair (TrimSpace (drop (i + 1) line))))"

text \<open>A line starts with one of the command keywords of the \<^verbatim>\<open>switch\<close>.\<close>

definition recognized :: "string \<Rightarrow> bool" where
  "recognized line =
     list_ex (HasPrefix line) [''EHLO'', ''MAIL FROM'', ''RCPT TO'', ''DATA'', ''QUIT'', ''NOOP'']"

text \<open>A small server and an idle session, used to run the functions on concrete
  input.\<close>

definition demoLib :: golib where
  "demoLib =
     \<lparr>mime_ParseMediaType = (\<lambda>v.
        if v = ''text/plain'' then (''text/plain'', Map.empty, None)
        else if v = ''multipart/alternative; boundary=b42''
        then (''multipart/alternative'', [''boundary'' \<mapsto> ''b42''], None)
        else if v = ''multipart/mixed'' then (''multipart/mixed'', Map.empty, None)
        else ([], Map.empty, Some (errors_New ''mime: expected slash after first token''))),
      multipart_Reader = (\<lambda>body boundary.
        [Inr (Part ''text/plain; charset=UTF-8'' (Inr (''Hi there'' @ CRLF))),
         Inr (Part ''text/html; charset=UTF-8'' (Inr (''<p>Hi there</p>'' @ CRLF)))])\<rparr>"

definition demoServer :: server where
  "demoServer =
     \<lparr>callBackFn = (\<lambda>mail. None), lib = demoLib, mapOrder = (\<lambda>n key headers. headers),
      readErr = GoError True ''EOF'', writeErr = errors_New ''broken pipe'',
      deadlineErr = None\<rparr>"

definition demoSession :: session where
  "demoSession =
     \<lparr>mailFrom = [], rcptTo = [], input = [], wbuf = [], sent = [], wops = 8,
      dispatched = [], parsed = 0\<rparr>"

text \<open>
  The parts \<^verbatim>\<open>processMultipartMessage\<close> gets to read, with Content-Type and
  content: those before the reader ends or fails.  \<open>lastWithPrefix\<close> is the trimmed
  content of the last of them whose Content-Type has the given prefix.
\<close>

fun seenParts :: "(go_error + part) list \<Rightarrow> (string \<times> string) list" where
  "seenParts [] = []"
| "seenParts (Inl err # rest) = []"
| "seenParts (Inr p # rest) =
     (case partData p of
        Inl err \<Rightarrow> []
      | Inr data \<Rightarrow> (partContentType p, data) # seenParts rest)"

definition lastWithPrefix :: "string \<Rightarrow> (string \<times> string) list \<Rightarrow> string option" where
  "lastWithPrefix pre ps =
     (case filter (\<lambda>(ct, data). HasPrefix ct pre) ps of
        [] \<Rightarrow> None
      | q # qs \<Rightarrow> Some (TrimSpace (snd (last (q # qs)))))"

text \<open>Concrete messages for running the parser.\<close>

definition demoMessage :: MailMessage where
  "demoMessage = \<lparr>From = ''a@x'', To = ''b@y'', Subject = ''hello'', PlainText = [], HTMLText = []\<rparr>"

definition demoNoBoundary :: string where
  "demoNoBoundary =
     ''Subject: hi'' @ CRLF @ ''Content-Type: multipart/mixed'' @ CRLF @ CRLF @ ''body''"

text \<open>A session whose client is about to send a message with a header line that has no
  colon.\<close>

definition demoBadHeader :: session where
  "demoBadHeader =
     demoSession\<lparr>input := [''Subject hello'' @ CRLF, CRLF, ''body'' @ CRLF, ''.'' @ CRLF,
                            ''QUIT'' @ CRLF]\<rparr>"

text \<open>
  At most one key of the header map folds to the wanted one, so that the lookup has
  one possible answer.
\<close>

definition unambiguous :: "header_map \<Rightarrow> string \<Rightarrow> bool" where
  "unambiguous headers key = (length (filter (\<lambda>(k, v). EqualFold k key) headers) \<le> 1)"

text \<open>Two orders in which a loop may visit the header map, and two messages that
  declare Subject twice.\<close>

definition inOrder :: "string \<Rightarrow> header_map \<Rightarrow> header_map" where
  "inOrder key headers = headers"

definition reversed :: "string \<Rightarrow> header_map \<Rightarrow> header_map" where
  "reversed key headers = rev headers"

definition demoTwoSubjects :: string where
  "demoTwoSubjects =
     ''Subject: first'' @ CRLF @ ''subject: second'' @ CRLF @ CRLF @ ''body''"

definition demoRepeatedSubject :: string where
  "demoRepeatedSubject =
     ''Subject: first'' @ CRLF @ ''Subject: second'' @ CRLF @ CRLF @ ''body''"

text \<open>The state in which an iteration of the command loop ends.\<close>

fun stepState :: "step \<Rightarrow> session" where
  "stepState (Returned r st) = st"
| "stepState (Next st) = st"

text \<open>Two states agree on the envelope, the input, the dispatched messages and the
  number of messages parsed: a reply to the client changes nothing else.\<close>

definition sameSession :: "session \<Rightarrow> session \<Rightarrow> bool" where
  "sameSession st st' \<longleftrightarrow>
     mailFrom st' = mailFrom st \<and> rcptTo st' = rcptTo st \<and> input st' = input st \<and>
     dispatched st' = dispatched st \<and> parsed st' = parsed st"

text \<open>A client that declares a recipient but no sender, and sends a message whose
  headers name both.\<close>

definition demoNoSender :: "string list" where
  "demoNoSender =
     [''RCPT TO:<b@y>'' @ CRLF, ''DATA'' @ CRLF, ''From: hdr@x'' @ CRLF, ''To: hdr@y'' @ CRLF,
      ''Subject: s'' @ CRLF, CRLF, ''body'' @ CRLF, ''.'' @ CRLF, ''QUIT'' @ CRLF]"

text \<open>The places a first call can be at, with what holds there.\<close>

definition firstCall :: "lifecycle \<Rightarrow> event list \<Rightarrow> shutdown_pc \<times> lifecycle \<Rightarrow> bool" where
  "firstCall s0 evs c =
     (case c of
        (pc, s) \<Rightarrow>
          wg s0 \<le> wg s + count_list evs SessionEnds \<and>
          (case pc of
             AtSelect \<Rightarrow> \<not> doneClosed s \<and> listener s = listener s0
           | AtWait \<Rightarrow> doneClosed s \<and> listener s = listener s0
           | AtClose \<Rightarrow>
               doneClosed s \<and> listener s = listener s0 \<and> wg s0 \<le> count_list evs SessionEnds
           | Finished r \<Rightarrow>
               doneClosed s \<and> listener s = map_option Suc (listener s0) \<and>
               wg s0 \<le> count_list evs SessionEnds \<and> r = fst (Close s0)))"

text \<open>A server with two sessions in flight, and the same server once \<^verbatim>\<open>Shutdown\<close> has
  returned.\<close>

definition demoRunning :: lifecycle where
  "demoRunning = \<lparr>doneClosed = False, wg = 2, listener = Some 0\<rparr>"

definition demoStopped :: lifecycle where
  "demoStopped = \<lparr>doneClosed = True, wg = 0, listener = Some 1\<rparr>"

text \<open>
  A message as the client sends it: header lines \<^verbatim>\<open>key:value\<close>, each with its line
  terminator.  \<open>declared decl name\<close> lists the values, trimmed, that the header lines
  \<open>decl\<close> give to the header \<open>name\<close>.  \<open>Join\<close> puts a separator between lines, as
  \<^verbatim>\<open>strings.Join\<close> does.
\<close>

definition headerLine :: "string \<times> string \<Rightarrow> string" where
  "headerLine kv = fst kv @ '':'' @ snd kv @ CRLF"

definition declared :: "(string \<times> string) list \<Rightarrow> string \<Rightarrow> string list" where
  "declared decl name =
     map (\<lambda>(k, v). TrimSpace v) (filter (\<lambda>(k, v). EqualFold (TrimSpace k) name) decl)"

fun Join :: "string list \<Rightarrow> string \<Rightarrow> string" where
  "Join [] sep = []"
| "Join [l] sep = l"
| "Join (l # l' # ls) sep = l @ sep @ Join (l' # ls) sep"

text \<open>
  Sessions in which the client declares the envelope and then sends a message: one
  whose body line ends in blanks, one with an empty body, one whose Subject header is
  folded over two lines, one that declares Subject under two keys (with a server whose
  map traversals take the reverse order); and the header lines of a plain message.
\<close>

definition demoEnvelope :: "string list" where
  "demoEnvelope =
     [''MAIL FROM:<sender@example.com>'' @ CRLF, ''RCPT TO:<rcpt@example.com>'' @ CRLF,
      ''DATA'' @ CRLF]"

definition demoBody :: string where
  "demoBody = ''hello   ''"

definition demoTrailingBlanks :: "string list" where
  "demoTrailingBlanks =
     demoEnvelope @ [''Subject: s'' @ CRLF, CRLF, demoBody @ CRLF, ''.'' @ CRLF]"

definition demoEmptyBody :: "string list" where
  "demoEmptyBody = demoEnvelope @ [''Subject: s'' @ CRLF, CRLF, ''.'' @ CRLF]"

definition demoFoldedSubject :: "string list" where
  "demoFoldedSubject =
     demoEnvelope @
     [''Subject: a long'' @ CRLF, '' subject'' @ CRLF, CRLF, ''hello'' @ CRLF, ''.'' @ CRLF]"

definition demoSubjectTwice :: "string list" where
  "demoSubjectTwice =
     demoEnvelope @
     [''Subject: first'' @ CRLF, ''subject: second'' @ CRLF, CRLF, ''hello'' @ CRLF, ''.'' @ CRLF]"

definition demoServerReversed :: server where
  "demoServerReversed = demoServer\<lparr>mapOrder := (\<lambda>n. reversed)\<rparr>"

definition demoHeaders :: "(string \<times> string) list" where
  "demoHeaders =
     [(''From'', '' from@example.com''), (''To'', '' to@example.com''),
      (''Subject'', '' test subject'')]"

section \<open>Properties\<close>

subsection \<open>Address parsing\<close>

lemma HasPrefix_single: "HasPrefix (c # cs) [x] \<longleftrightarrow> c = x"
  by (simp add: HasPrefix_def)

lemma Index_single_None: "Index s [x] = None \<longleftrightarrow> x \<notin> set s"
  by (induction s) (auto simp: HasPrefix_single)

lemma Index_single_first: "x \<notin> set before \<Longrightarrow> Index (before @ x # rest) [x] = Some (length before)"
  by (induction before) (auto simp: HasPrefix_single)

lemma parseAddress_Index:
  "parseAddress line =
     (case Index line '':'' of
        None \<Rightarrow> Inl (errors_New ''invalid RCPT TO syntax'')
      | Some i \<Rightarrow> Inr (Trim (TrimSpace (drop (i + 1) line)) ''<>''))"
  by (simp add: parseAddress_def numeral_2_eq_2 Let_def split: option.splits)

lemma Trim_decomp:
  "\<exists>pre suf. s = pre @ Trim s cutset @ suf \<and> set pre \<subseteq> set cutset \<and> set suf \<subseteq> set cutset"
proof -
  define pre where "pre = takeWhile (\<lambda>c. c \<in> set cutset) s"
  define d where "d = dropWhile (\<lambda>c. c \<in> set cutset) s"
  define t where "t = takeWhile (\<lambda>c. c \<in> set cutset) (rev d)"
  have "rev d = t @ rev (Trim s cutset)"
    by (simp add: t_def d_def Trim_def)
  then have "rev (rev d) = rev (t @ rev (Trim s cutset))"
    by (rule arg_cong)
  then have "d = Trim s cutset @ rev t"
    by simp
  moreover have "s = pre @ d"
    by (simp add: pre_def d_def)
  ultimately have "s = pre @ Trim s cutset @ rev t"
    by simp
  moreover have "set pre \<subseteq> set cutset"
    unfolding pre_def by (auto dest: set_takeWhileD)
  moreover have "set (rev t) \<subseteq> set cutset"
    unfolding t_def by (auto dest: set_takeWhileD)
  ultimately show ?thesis
    by blast
qed

lemma Trim_ends:
  assumes "Trim s cutset \<noteq> []"
  shows "hd (Trim s cutset) \<notin> set cutset" "last (Trim s cutset) \<notin> set cutset"
proof -
  let ?P = "\<lambda>c. c \<in> set cutset"
  let ?d = "dropWhile ?P s"
  let ?r = "dropWhile ?P (rev ?d)"
  from assms have r: "?r \<noteq> []" by (simp add: Trim_def)
  then have "\<not> ?P (hd ?r)" by (rule hd_dropWhile)
  then show "last (Trim s cutset) \<notin> set cutset"
    using r by (simp add: Trim_def last_rev)
  have d: "?d \<noteq> []"
  proof
    assume "?d = []"
    then have "?r = []" by (simp only: rev.simps dropWhile.simps)
    with r show False by contradiction
  qed
  then have nd: "\<not> ?P (hd ?d)" by (rule hd_dropWhile)
  have "hd (rev ?r) = hd ?d"
  proof -
    have "\<not> ?P (last (rev ?d))" using nd d by (simp add: last_rev)
    obtain suf where suf: "rev ?d = suf @ ?r" by (metis takeWhile_dropWhile_id)
    then have "?d = rev ?r @ rev suf" by (metis rev_append rev_rev_ident)
    with r show ?thesis by (metis hd_append2 rev_is_Nil_conv)
  qed
  with nd show "hd (Trim s cutset) \<notin> set cutset" by (simp add: Trim_def)
qed

text \<open>
  Claim C5, as amended.  The command line is split at its first colon, and parsing
  fails when it has none.  The remainder is trimmed of white space, and then
  \<^emph>\<open>every\<close> leading and every trailing \<^verbatim>\<open><\<close> or \<^verbatim>\<open>>\<close> is removed: the address
  returned neither starts nor ends with an angle bracket, and what was removed before
  and after it consists of angle brackets only.
\<close>

theorem parseAddress_trims_every_bracket:
  "(CHR '':'' \<notin> set line \<longrightarrow> parseAddress line = Inl (errors_New ''invalid RCPT TO syntax'')) \<and>
   (\<forall>before rest. line = before @ '':'' @ rest \<and> CHR '':'' \<notin> set before \<longrightarrow>
      (\<exists>pre addr suf. parseAddress line = Inr addr \<and> TrimSpace rest = pre @ addr @ suf \<and>
         set pre \<subseteq> set ''<>'' \<and> set suf \<subseteq> set ''<>'' \<and>
         (addr \<noteq> [] \<longrightarrow> hd addr \<notin> set ''<>'' \<and> last addr \<notin> set ''<>'')))"
proof (intro conjI impI allI)
  assume "CHR '':'' \<notin> set line"
  then have "Index line '':'' = None" by (simp add: Index_single_None)
  then show "parseAddress line = Inl (errors_New ''invalid RCPT TO syntax'')"
    by (simp add: parseAddress_Index)
next
  fix before rest
  assume a: "line = before @ '':'' @ rest \<and> CHR '':'' \<notin> set before"
  then have "Index line '':'' = Some (length before)"
    using Index_single_first [of "CHR '':''" before rest] by simp
  with a have p: "parseAddress line = Inr (Trim (TrimSpace rest) ''<>'')"
    by (simp add: parseAddress_Index)
  obtain pre suf where "TrimSpace rest = pre @ Trim (TrimSpace rest) ''<>'' @ suf"
    "set pre \<subseteq> set ''<>''" "set suf \<subseteq> set ''<>''"
    using Trim_decomp by blast
  with p Trim_ends [of "TrimSpace rest" "''<>''"]
  show "\<exists>pre addr suf. parseAddress line = Inr addr \<and> TrimSpace rest = pre @ addr @ suf \<and>
         set pre \<subseteq> set ''<>'' \<and> set suf \<subseteq> set ''<>'' \<and>
         (addr \<noteq> [] \<longrightarrow> hd addr \<notin> set ''<>'' \<and> last addr \<notin> set ''<>'')"
    by blast
qed

text \<open>
  Claim C5 as stated (exactly one bracket stripped on each side, so that nested
  brackets are kept) fails: on \<^verbatim>\<open>RCPT TO:<<a@b>>\<close> the server returns \<^verbatim>\<open>a@b\<close>,
  where stripping one pair gives \<^verbatim>\<open><a@b>\<close>.
\<close>

theorem parseAddress_one_pair_counterexample:
  "parseAddress ''RCPT TO:<<a@b>>'' = Inr ''a@b'' \<and>
   parseAddress_spec ''RCPT TO:<<a@b>>'' = Inr ''<a@b>''"
  by code_simp


theorem parseAddress_trims_every_bracket_witness:
  "\<exists>pre suf. TrimSpace '' <<a@b>> '' = pre @ ''a@b'' @ suf \<and>
     set pre \<subseteq> set ''<>'' \<and> set suf \<subseteq> set ''<>''"
proof -
  have p: "parseAddress ''RCPT TO: <<a@b>> '' = Inr ''a@b''"
    by code_simp
  have h: "''RCPT TO: <<a@b>> '' = ''RCPT TO'' @ '':'' @ '' <<a@b>> '' \<and> CHR '':'' \<notin> set ''RCPT TO''"
    by simp
  from parseAddress_trims_every_bracket [of "''RCPT TO: <<a@b>> ''"] h
  obtain pre addr suf where "parseAddress ''RCPT TO: <<a@b>> '' = Inr addr"
    "TrimSpace '' <<a@b>> '' = pre @ addr @ suf" "set pre \<subseteq> set ''<>''" "set suf \<subseteq> set ''<>''"
    by blast
  with p show ?thesis by auto
qed

lemma TrimSpace_MAILFROM: "TrimSpace (''MAIL FROM:'' @ CRLF) = ''MAIL FROM:''"
  by code_simp

lemma parseAddress_MAILFROM: "parseAddress ''MAIL FROM:'' = Inr []"
  by code_simp

text \<open>
  Claim C10.  \<^verbatim>\<open>parseAddress\<close> returns an error exactly for the lines without a
  colon; the text after the colon is not validated.  For \<^verbatim>\<open>MAIL FROM:\<close> it returns
  the empty address, and the session stores it, replies \<^verbatim>\<open>250 OK\<close> and goes on
  (provided the two writer operations succeed).
\<close>

theorem parseAddress_fails_only_without_colon:
  "(isl (parseAddress line) \<longleftrightarrow> CHR '':'' \<notin> set line) \<and>
   parseAddress ''MAIL FROM:'' = Inr [] \<and>
   (2 \<le> wops st \<longrightarrow>
      commandStep srv (''MAIL FROM:'' @ CRLF) st =
        Next (st\<lparr>mailFrom := [], wbuf := [], sent := sent st @ wbuf st @ [''250 OK'' @ CRLF],
               wops := wops st - 2\<rparr>))"
proof (intro conjI impI)
  show "isl (parseAddress line) \<longleftrightarrow> CHR '':'' \<notin> set line"
    using Index_single_None [of line "CHR '':''"]
    by (auto simp: parseAddress_Index split: option.splits)
  show "parseAddress ''MAIL FROM:'' = Inr []"
    by (rule parseAddress_MAILFROM)
  assume "2 \<le> wops st"
  moreover have "HasPrefix ''MAIL FROM:'' ''MAIL FROM''" "\<not> HasPrefix ''MAIL FROM:'' ''EHLO''"
    by (simp_all add: HasPrefix_def)
  ultimately show "commandStep srv (''MAIL FROM:'' @ CRLF) st =
        Next (st\<lparr>mailFrom := [], wbuf := [], sent := sent st @ wbuf st @ [''250 OK'' @ CRLF],
               wops := wops st - 2\<rparr>)"
    unfolding commandStep_def TrimSpace_MAILFROM Let_def
    by (simp add: parseAddress_MAILFROM checked_def WriteString_def Flush_def)
qed

theorem parseAddress_fails_only_without_colon_witness:
  "isl (parseAddress ''MAIL FROM <a@b>'') \<and> \<not> isl (parseAddress ''MAIL FROM:<>'') \<and>
   commandStep demoServer (''MAIL FROM:'' @ CRLF) demoSession =
     Next (demoSession\<lparr>sent := [''250 OK'' @ CRLF], wops := 6\<rparr>)"
proof -
  have "(2::nat) \<le> wops demoSession"
    by (simp add: demoSession_def)
  with parseAddress_fails_only_without_colon [of "''MAIL FROM <a@b>''" demoSession demoServer]
    parseAddress_fails_only_without_colon [of "''MAIL FROM:<>''"]
  show ?thesis by (simp add: demoSession_def)
qed

subsection \<open>The command loop\<close>

text \<open>
  Claim C4, as amended.  A line that, once trimmed, starts with none of the command
  keywords and is not a lone \<^verbatim>\<open>.\<close> is answered with \<^verbatim>\<open>250 OK\<close>, and the loop goes
  on with the envelope unchanged (provided the two writer operations succeed).  A lone
  \<^verbatim>\<open>.\<close> has a case of its own: nothing is written, and the loop goes on.
\<close>

theorem unrecognized_line_reply:
  "(\<not> recognized (TrimSpace rawLine) \<and> TrimSpace rawLine \<noteq> ''.'' \<and> 2 \<le> wops st \<longrightarrow>
      commandStep srv rawLine st =
        Next (st\<lparr>wbuf := [], sent := sent st @ wbuf st @ [''250 OK'' @ CRLF],
               wops := wops st - 2\<rparr>)) \<and>
   (TrimSpace rawLine = ''.'' \<longrightarrow> commandStep srv rawLine st = Next st)"
proof (intro conjI impI)
  assume "\<not> recognized (TrimSpace rawLine) \<and> TrimSpace rawLine \<noteq> ''.'' \<and> 2 \<le> wops st"
  then show "commandStep srv rawLine st =
        Next (st\<lparr>wbuf := [], sent := sent st @ wbuf st @ [''250 OK'' @ CRLF],
               wops := wops st - 2\<rparr>)"
    by (simp add: commandStep_def recognized_def ignored_def checked_def WriteString_def Flush_def)
next
  assume "TrimSpace rawLine = ''.''"
  then show "commandStep srv rawLine st = Next st"
    by (simp add: commandStep_def HasPrefix_def)
qed


lemma TrimSpace_dot: "TrimSpace (''.'' @ CRLF) = ''.''"
  by code_simp

theorem unrecognized_line_reply_witness:
  "commandStep demoServer (''HELO client'' @ CRLF) demoSession =
     Next (demoSession\<lparr>sent := [''250 OK'' @ CRLF], wops := 6\<rparr>) \<and>
   commandStep demoServer (''.'' @ CRLF) demoSession = Next demoSession"
proof -
  have "\<not> recognized (TrimSpace (''HELO client'' @ CRLF)) \<and>
      TrimSpace (''HELO client'' @ CRLF) \<noteq> ''.'' \<and> 2 \<le> wops demoSession"
    by code_simp
  with unrecognized_line_reply [of "''HELO client'' @ CRLF" demoSession demoServer]
    unrecognized_line_reply [of "''.'' @ CRLF" demoSession demoServer] TrimSpace_dot
  show ?thesis by (simp add: demoSession_def)
qed

text \<open>
  Claim C4 as stated fails for the lone \<^verbatim>\<open>.\<close>: it starts with no command keyword, and
  the server sends no reply to it.
\<close>

theorem lone_dot_counterexample:
  "\<not> recognized (TrimSpace (''.'' @ CRLF)) \<and>
   commandStep demoServer (''.'' @ CRLF) demoSession = Next demoSession \<and>
   sent demoSession = [] \<and> wbuf demoSession = []"
  by code_simp

subsection \<open>Multipart messages\<close>

lemma lastWithPrefix_Nil [simp]: "lastWithPrefix pre [] = None"
  by (simp add: lastWithPrefix_def)

lemma lastWithPrefix_Cons:
  "lastWithPrefix pre ((ct, data) # ps) =
     (case lastWithPrefix pre ps of
        Some c \<Rightarrow> Some c
      | None \<Rightarrow> if HasPrefix ct pre then Some (TrimSpace data) else None)"
  by (simp add: lastWithPrefix_def split: list.splits)

lemma HasPrefix_agree:
  assumes "HasPrefix s p" and "HasPrefix s q"
  shows "take (length q) p = take (length p) q"
proof -
  from assms have "take (length q) p = take (length q) (take (length p) s)"
    and "take (length p) q = take (length p) (take (length q) s)"
    by (simp_all only: HasPrefix_def)
  then show ?thesis by (simp add: min.commute)
qed

lemma plain_not_html: "HasPrefix ct ''text/plain'' \<Longrightarrow> \<not> HasPrefix ct ''text/html''"
  using HasPrefix_agree [of ct "''text/plain''" "''text/html''"] by auto

lemma processMultipartMessage_fields:
  "processMultipartMessage reader mailMessage = Inr result \<Longrightarrow>
     PlainText result =
       (case lastWithPrefix ''text/plain'' (seenParts reader) of
          None \<Rightarrow> PlainText mailMessage | Some c \<Rightarrow> c) \<and>
     HTMLText result =
       (case lastWithPrefix ''text/html'' (seenParts reader) of
          None \<Rightarrow> HTMLText mailMessage | Some c \<Rightarrow> c) \<and>
     From result = From mailMessage \<and> To result = To mailMessage \<and>
     Subject result = Subject mailMessage"
proof (induction reader mailMessage rule: processMultipartMessage.induct)
  case (1 mailMessage)
  then show ?case by simp
next
  case (2 err rest mailMessage)
  then show ?case by (simp split: if_splits)
next
  case (3 p rest mailMessage)
  show ?case
  proof (cases "partData p")
    case (Inl err)
    with 3 show ?thesis by (simp split: if_splits)
  next
    case (Inr data)
    with "3.prems" "3.IH" [OF Inr] show ?thesis
      by (auto simp: lastWithPrefix_Cons plain_not_html split: option.splits)
  qed
qed

text \<open>
  Claim C2.  When the multipart body is decomposed without error, PlainText is the
  trimmed content of the last part read whose Content-Type starts with
  \<^verbatim>\<open>text/plain\<close>, and HTMLText that of the last part whose Content-Type starts with
  \<^verbatim>\<open>text/html\<close> (a field stays as it was when no part matches).  In particular a
  body of one \<^verbatim>\<open>text/plain\<close> part and one \<^verbatim>\<open>text/html\<close> part yields the trimmed
  content of each, in whichever order the two parts come.
\<close>

theorem multipart_last_part_wins:
  "(processMultipartMessage reader mailMessage = Inr result \<longrightarrow>
      PlainText result =
        (case lastWithPrefix ''text/plain'' (seenParts reader) of
           None \<Rightarrow> PlainText mailMessage | Some c \<Rightarrow> c) \<and>
      HTMLText result =
        (case lastWithPrefix ''text/html'' (seenParts reader) of
           None \<Rightarrow> HTMLText mailMessage | Some c \<Rightarrow> c)) \<and>
   (HasPrefix ctPlain ''text/plain'' \<and> HasPrefix ctHtml ''text/html'' \<longrightarrow>
      processMultipartMessage
        [Inr (Part ctPlain (Inr plain)), Inr (Part ctHtml (Inr html))] mailMessage =
        Inr (mailMessage\<lparr>PlainText := TrimSpace plain, HTMLText := TrimSpace html\<rparr>) \<and>
      processMultipartMessage
        [Inr (Part ctHtml (Inr html)), Inr (Part ctPlain (Inr plain))] mailMessage =
        Inr (mailMessage\<lparr>PlainText := TrimSpace plain, HTMLText := TrimSpace html\<rparr>))"
  using processMultipartMessage_fields [of reader mailMessage result]
  by (auto simp: plain_not_html)

theorem multipart_last_part_wins_witness:
  "processMultipartMessage
     [Inr (Part ''text/plain'' (Inr ''first'')), Inr (Part ''text/html; charset=UTF-8'' (Inr ''<p>x</p> '')),
      Inr (Part ''text/plain; charset=UTF-8'' (Inr '' second ''))] demoMessage =
     Inr (demoMessage\<lparr>PlainText := ''second'', HTMLText := ''<p>x</p>''\<rparr>) \<and>
   processMultipartMessage
     [Inr (Part ''text/html'' (Inr ''<b>h</b>'')), Inr (Part ''text/plain'' (Inr ''p''))] demoMessage =
     Inr (demoMessage\<lparr>PlainText := ''p'', HTMLText := ''<b>h</b>''\<rparr>)"
proof -
  let ?reader = "[Inr (Part ''text/plain'' (Inr ''first'')), Inr (Part ''text/html; charset=UTF-8'' (Inr ''<p>x</p> '')),
      Inr (Part ''text/plain; charset=UTF-8'' (Inr '' second ''))]"
  let ?result = "demoMessage\<lparr>PlainText := ''second'', HTMLText := ''<p>x</p>''\<rparr>"
  have run: "processMultipartMessage ?reader demoMessage = Inr ?result"
    by code_simp
  have pre: "HasPrefix ''text/plain'' ''text/plain'' \<and> HasPrefix ''text/html'' ''text/html''"
    by code_simp
  have t: "TrimSpace ''p'' = ''p''" "TrimSpace ''<b>h</b>'' = ''<b>h</b>''"
    by code_simp+
  from multipart_last_part_wins [of ?reader demoMessage ?result "''text/plain''" "''text/html''" "''p''" "''<b>h</b>''"]
    run pre t
  show ?thesis by simp
qed

text \<open>
  Claim C6.  When the media type of the Content-Type header starts with
  \<^verbatim>\<open>multipart/\<close> and its parameters hold no \<^verbatim>\<open>boundary\<close>, parsing returns an error
  and no MailMessage.
\<close>

theorem multipart_without_boundary_fails:
  assumes "parseHeadersAndBody data = Inr (headers, body)"
    and "HasPrefix (fst (ParseMediaType glib (getHeader (visit ''Content-Type'') headers ''Content-Type'')))
           ''multipart/''"
    and "fst (snd (ParseMediaType glib (getHeader (visit ''Content-Type'') headers ''Content-Type'')))
           ''boundary'' = None"
  shows "isl (parseMailData glib visit data)"
proof -
  obtain mediaType params err
    where p: "ParseMediaType glib (getHeader (visit ''Content-Type'') headers ''Content-Type'')
                = (mediaType, params, err)"
    by (metis prod_cases3)
  with assms have "HasPrefix mediaType ''multipart/''" "mapIndex params ''boundary'' = []"
    by (simp_all add: mapIndex_def)
  with assms(1) p show ?thesis
    by (simp add: parseMailData_def NewReader_def errors_New_def Let_def split: option.splits)
qed

theorem multipart_without_boundary_fails_witness:
  "isl (parseMailData (lib demoServer) (mapOrder demoServer 0) demoNoBoundary)"
proof -
  let ?headers = "[(''Subject'', ''hi''), (''Content-Type'', ''multipart/mixed'')]"
  have 1: "parseHeadersAndBody demoNoBoundary = Inr (?headers, ''body'')"
    by code_simp
  have 2: "HasPrefix (fst (ParseMediaType (lib demoServer)
        (getHeader (mapOrder demoServer 0 ''Content-Type'') ?headers ''Content-Type''))) ''multipart/''"
    by code_simp
  have 3: "fst (snd (ParseMediaType (lib demoServer)
        (getHeader (mapOrder demoServer 0 ''Content-Type'') ?headers ''Content-Type''))) ''boundary'' = None"
    by code_simp
  from multipart_without_boundary_fails [where visit = "mapOrder demoServer 0", OF 1 2 3]
  show ?thesis .
qed

subsection \<open>Parsing the raw mail data\<close>

lemma SplitN_2:
  "SplitN s sep 2 =
     (case Index s sep of None \<Rightarrow> [s] | Some i \<Rightarrow> [take i s, drop (i + length sep) s])"
  by (simp add: numeral_2_eq_2 split: option.splits)

lemma parseHeaderLines_fails:
  "isl (parseHeaderLines lines headers) \<longleftrightarrow> (\<exists>line\<in>set lines. CHR '':'' \<notin> set line)"
proof (induction lines arbitrary: headers)
  case Nil
  then show ?case by simp
next
  case (Cons line lines)
  show ?case
  proof (cases "Index line '':''")
    case None
    then have "CHR '':'' \<notin> set line" by (simp add: Index_single_None)
    with None show ?thesis by auto
  next
    case (Some i)
    then have "CHR '':'' \<in> set line"
      using Index_single_None [of line "CHR '':''"] by auto
    with Some Cons.IH show ?thesis by (simp add: Let_def)
  qed
qed

lemma parseHeadersAndBody_Index:
  "parseHeadersAndBody data =
     (case Index data (CRLF @ CRLF) of
        None \<Rightarrow> Inl (errors_New ''invalid mail format: missing headers or body'')
      | Some i \<Rightarrow>
          (case parseHeaderLines (Split (take i data) CRLF) [] of
             Inl err \<Rightarrow> Inl err
           | Inr headers \<Rightarrow> Inr (headers, drop (i + length (CRLF @ CRLF)) data)))"
  by (simp add: parseHeadersAndBody_def SplitN_2 Let_def split: option.splits sum.splits)

lemma parseHeadersAndBody_fails:
  "isl (parseHeadersAndBody data) \<longleftrightarrow>
     Index data (CRLF @ CRLF) = None \<or>
     (\<exists>i. Index data (CRLF @ CRLF) = Some i \<and>
          (\<exists>line\<in>set (Split (take i data) CRLF). CHR '':'' \<notin> set line))"
proof (cases "Index data (CRLF @ CRLF)")
  case None
  then show ?thesis by (simp add: parseHeadersAndBody_Index)
next
  case (Some i)
  show ?thesis
  proof (cases "parseHeaderLines (Split (take i data) CRLF) []")
    case (Inl err)
    with parseHeaderLines_fails [of "Split (take i data) CRLF" "[]"] Some show ?thesis
      by (simp add: parseHeadersAndBody_Index)
  next
    case (Inr headers)
    with parseHeaderLines_fails [of "Split (take i data) CRLF" "[]"] Some show ?thesis
      by (simp add: parseHeadersAndBody_Index)
  qed
qed

lemma processMultipartMessage_isl:
  "isl (processMultipartMessage reader m) = isl (processMultipartMessage reader m')"
proof (induction reader arbitrary: m m')
  case Nil
  show ?case by simp
next
  case (Cons r reader)
  show ?case
  proof (cases r)
    case (Inl err)
    then show ?thesis by simp
  next
    case (Inr p)
    show ?thesis
    proof (cases "partData p")
      case (Inl err)
      with Inr show ?thesis by simp
    next
      case data: (Inr data)
      let ?u = "\<lambda>m. if HasPrefix (partContentType p) ''text/plain''
             then m\<lparr>PlainText := TrimSpace data\<rparr>
             else if HasPrefix (partContentType p) ''text/html''
             then m\<lparr>HTMLText := TrimSpace data\<rparr>
             else m"
      have "processMultipartMessage (r # reader) m = processMultipartMessage reader (?u m)"
        and "processMultipartMessage (r # reader) m' = processMultipartMessage reader (?u m')"
        using Inr data by simp_all
      with Cons.IH [of "?u m" "?u m'"] show ?thesis
        by (simp only:)
    qed
  qed
qed

subsection \<open>Steps of the command loop\<close>

lemma DATA_not_other:
  assumes "HasPrefix l ''DATA''"
  shows "\<not> HasPrefix l ''EHLO''" "\<not> HasPrefix l ''MAIL FROM''" "\<not> HasPrefix l ''RCPT TO''"
  using HasPrefix_agree [OF assms, of "''EHLO''"] HasPrefix_agree [OF assms, of "''MAIL FROM''"]
    HasPrefix_agree [OF assms, of "''RCPT TO''"]
  by auto

lemma write_flush:
  assumes "2 \<le> wops st"
  shows "snd (Flush (snd (WriteString s st))) =
           st\<lparr>wbuf := [], sent := sent st @ wbuf st @ [s], wops := wops st - 2\<rparr>"
    and "\<not> fst (WriteString s st)" and "\<not> fst (Flush (snd (WriteString s st)))"
  using assms by (simp_all add: WriteString_def Flush_def)

lemma reply_checked:
  assumes "2 \<le> wops st"
  shows "checked srv l1 (WriteString s st) (\<lambda>st. checked srv l2 (Flush st) k) =
           k (st\<lparr>wbuf := [], sent := sent st @ wbuf st @ [s], wops := wops st - 2\<rparr>)"
proof -
  obtain w where w: "WriteString s st = (False, w)"
    using write_flush(2) [OF assms, of s] by (cases "WriteString s st") auto
  obtain f where f: "Flush w = (False, f)"
    using write_flush(3) [OF assms, of s] w by (cases "Flush w") auto
  have "checked srv l1 (WriteString s st) (\<lambda>st. checked srv l2 (Flush st) k) =
          k (snd (Flush (snd (WriteString s st))))"
    by (simp add: checked_def w f)
  then show ?thesis
    by (simp only: write_flush(1) [OF assms])
qed

lemma reply_ignored:
  assumes "2 \<le> wops st"
  shows "ignored (WriteString s st) (\<lambda>st. checked srv l2 (Flush st) k) =
           k (st\<lparr>wbuf := [], sent := sent st @ wbuf st @ [s], wops := wops st - 2\<rparr>)"
proof -
  obtain w where w: "WriteString s st = (False, w)"
    using write_flush(2) [OF assms, of s] by (cases "WriteString s st") auto
  obtain f where f: "Flush w = (False, f)"
    using write_flush(3) [OF assms, of s] w by (cases "Flush w") auto
  have "ignored (WriteString s st) (\<lambda>st. checked srv l2 (Flush st) k) =
          k (snd (Flush (snd (WriteString s st))))"
    by (simp add: checked_def ignored_def w f)
  then show ?thesis
    by (simp only: write_flush(1) [OF assms])
qed

lemma commandStep_DATA:
  assumes "HasPrefix (TrimSpace rawLine) ''DATA''" and "2 \<le> wops st"
  shows "commandStep srv rawLine st =
    handleData srv
      (st\<lparr>wbuf := [],
          sent := sent st @ wbuf st @ [''354 Start mail input; end with <CRLF>.<CRLF>'' @ CRLF],
          wops := wops st - 2\<rparr>)"
  unfolding commandStep_def Let_def reply_checked [OF assms(2)]
  using assms(1) DATA_not_other [OF assms(1)] by simp

lemma handleData_parse_error:
  assumes "collectMailData (input st) = (data, rest)" and "data \<noteq> []"
    and "parseMailData (lib srv) (mapOrder srv (parsed st)) data = Inl err"
    and "2 \<le> wops st"
  shows "handleData srv st =
    Returned None
      (st\<lparr>input := rest, parsed := Suc (parsed st), wbuf := [],
          sent := sent st @ wbuf st @ [''550 Error processing mail: '' @ message err @ CRLF],
          wops := wops st - 2\<rparr>)"
proof -
  let ?st = "st\<lparr>input := rest, parsed := Suc (parsed st)\<rparr>"
  have "2 \<le> wops ?st"
    using assms(4) by simp
  from reply_checked [OF this, of srv _ "''550 Error processing mail: '' @ message err @ CRLF" _ "Returned None"]
  show ?thesis
    using assms(1-3) by (simp add: handleData_def)
qed

subsection \<open>When parsing fails\<close>

lemma parseMailData_header_error:
  "parseHeadersAndBody data = Inl err \<Longrightarrow> parseMailData glib visit data = Inl err"
  by (simp add: parseMailData_def)

lemma parseMailData_after_headers:
  assumes "parseHeadersAndBody data = Inr (headers, body)"
    and "ParseMediaType glib (getHeader (visit ''Content-Type'') headers ''Content-Type'')
           = (mediaType, params, err)"
  shows "parseMailData glib visit data =
    (case (if getHeader (visit ''Content-Type'') headers ''Content-Type'' \<noteq> [] then err else None) of
       Some e \<Rightarrow> Inl (Errorf_w ''error parsing Content-Type: '' e)
     | None \<Rightarrow>
         if HasPrefix mediaType ''multipart/''
         then processMultipartMessage (NewReader glib body (mapIndex params ''boundary''))
                \<lparr>From = getHeader (visit ''From'') headers ''From'',
                 To = getHeader (visit ''To'') headers ''To'',
                 Subject = getHeader (visit ''Subject'') headers ''Subject'',
                 PlainText = [], HTMLText = []\<rparr>
         else Inr \<lparr>From = getHeader (visit ''From'') headers ''From'',
                 To = getHeader (visit ''To'') headers ''To'',
                 Subject = getHeader (visit ''Subject'') headers ''Subject'',
                 PlainText = body, HTMLText = []\<rparr>)"
  using assms by (simp add: parseMailData_def Let_def split: option.splits)

lemma ParseMediaType_empty: "ParseMediaType glib [] = ([], Map.empty, Some (errors_New ''mime: no media type''))"
  by (simp add: ParseMediaType_def)

text \<open>
  Claim C3.  Parsing the raw message text returns an error exactly in these cases:
  the text has no blank-line separator; a line of the header block has no colon; the
  Content-Type header is non-empty and \<^verbatim>\<open>mime.ParseMediaType\<close> rejects it; or the
  message is multipart and the decomposer returns an error.  The first two are the
  failures of \<^verbatim>\<open>parseHeadersAndBody\<close>, the last two are the failures once headers
  and body are split.  When the Content-Type header is absent or empty, parsing succeeds
  and the raw body is PlainText.  Within a session, a message with a header line that
  has no colon is answered with \<^verbatim>\<open>550 Error processing mail: ...\<close>, nothing is
  dispatched and \<^verbatim>\<open>handleConnection\<close> returns, which closes the connection
  (provided the writer operations succeed).
\<close>

theorem parseMailData_fails_iff:
  "(isl (parseHeadersAndBody data) \<longleftrightarrow>
      Index data (CRLF @ CRLF) = None \<or>
      (\<exists>i. Index data (CRLF @ CRLF) = Some i \<and>
           (\<exists>line\<in>set (Split (take i data) CRLF). CHR '':'' \<notin> set line))) \<and>
   (isl (parseHeadersAndBody data) \<longrightarrow> isl (parseMailData glib visit data)) \<and>
   (parseHeadersAndBody data = Inr (headers, body) \<longrightarrow>
      (case ParseMediaType glib (getHeader (visit ''Content-Type'') headers ''Content-Type'') of
         (mediaType, params, err) \<Rightarrow>
           isl (parseMailData glib visit data) \<longleftrightarrow>
             getHeader (visit ''Content-Type'') headers ''Content-Type'' \<noteq> [] \<and> err \<noteq> None \<or>
             HasPrefix mediaType ''multipart/'' \<and>
             isl (processMultipartMessage (NewReader glib body (mapIndex params ''boundary''))
                    anyMessage))) \<and>
   (parseHeadersAndBody data = Inr (headers, body) \<and>
    getHeader (visit ''Content-Type'') headers ''Content-Type'' = [] \<longrightarrow>
      parseMailData glib visit data =
        Inr \<lparr>From = getHeader (visit ''From'') headers ''From'',
             To = getHeader (visit ''To'') headers ''To'',
             Subject = getHeader (visit ''Subject'') headers ''Subject'',
             PlainText = body, HTMLText = []\<rparr>) \<and>
   (HasPrefix (TrimSpace rawLine) ''DATA'' \<and> 4 \<le> wops st \<and>
    collectMailData (input st) = (data, rest) \<and> data \<noteq> [] \<and>
    Index data (CRLF @ CRLF) = Some i \<and> line \<in> set (Split (take i data) CRLF) \<and>
    CHR '':'' \<notin> set line \<longrightarrow>
      (\<exists>detail. commandStep srv rawLine st =
         Returned None
           (st\<lparr>input := rest, parsed := Suc (parsed st), wbuf := [],
               sent := sent st @ wbuf st @
                 [''354 Start mail input; end with <CRLF>.<CRLF>'' @ CRLF,
                  ''550 Error processing mail: '' @ detail @ CRLF],
               wops := wops st - 4\<rparr>)))"
proof (intro conjI impI)
  show "isl (parseHeadersAndBody data) \<longleftrightarrow>
      Index data (CRLF @ CRLF) = None \<or>
      (\<exists>i. Index data (CRLF @ CRLF) = Some i \<and>
           (\<exists>line\<in>set (Split (take i data) CRLF). CHR '':'' \<notin> set line))"
    by (rule parseHeadersAndBody_fails)
next
  assume "isl (parseHeadersAndBody data)"
  then obtain e where "parseHeadersAndBody data = Inl e"
    by (cases "parseHeadersAndBody data") auto
  then show "isl (parseMailData glib visit data)"
    by (simp add: parseMailData_header_error)
next
  assume h: "parseHeadersAndBody data = Inr (headers, body)"
  obtain mediaType params err
    where p: "ParseMediaType glib (getHeader (visit ''Content-Type'') headers ''Content-Type'')
                = (mediaType, params, err)"
    by (metis prod_cases3)
  let ?m0 = "\<lparr>From = getHeader (visit ''From'') headers ''From'',
                 To = getHeader (visit ''To'') headers ''To'',
                 Subject = getHeader (visit ''Subject'') headers ''Subject'',
                 PlainText = [], HTMLText = []\<rparr>"
  have any: "isl (processMultipartMessage (NewReader glib body (mapIndex params ''boundary'')) ?m0)
     = isl (processMultipartMessage (NewReader glib body (mapIndex params ''boundary'')) anyMessage)"
    by (rule processMultipartMessage_isl)
  have "isl (parseMailData glib visit data) \<longleftrightarrow>
             getHeader (visit ''Content-Type'') headers ''Content-Type'' \<noteq> [] \<and> err \<noteq> None \<or>
             HasPrefix mediaType ''multipart/'' \<and>
             isl (processMultipartMessage (NewReader glib body (mapIndex params ''boundary''))
                    anyMessage)"
  proof (cases "getHeader (visit ''Content-Type'') headers ''Content-Type'' = []")
    case True
    with p have "mediaType = []" by (simp add: ParseMediaType_empty)
    then have "\<not> HasPrefix mediaType ''multipart/''" by (simp add: HasPrefix_def)
    with True show ?thesis
      by (simp add: parseMailData_after_headers [where visit = visit, OF h p])
  next
    case False
    with any show ?thesis
      by (cases err) (simp_all add: parseMailData_after_headers [where visit = visit, OF h p])
  qed
  with p show "case ParseMediaType glib (getHeader (visit ''Content-Type'') headers ''Content-Type'') of
         (mediaType, params, err) \<Rightarrow>
           isl (parseMailData glib visit data) \<longleftrightarrow>
             getHeader (visit ''Content-Type'') headers ''Content-Type'' \<noteq> [] \<and> err \<noteq> None \<or>
             HasPrefix mediaType ''multipart/'' \<and>
             isl (processMultipartMessage (NewReader glib body (mapIndex params ''boundary''))
                    anyMessage)"
    by simp
next
  assume a: "parseHeadersAndBody data = Inr (headers, body) \<and>
    getHeader (visit ''Content-Type'') headers ''Content-Type'' = []"
  then have p: "ParseMediaType glib (getHeader (visit ''Content-Type'') headers ''Content-Type'')
                = ([], Map.empty, Some (errors_New ''mime: no media type''))"
    by (simp add: ParseMediaType_empty)
  from a have h: "parseHeadersAndBody data = Inr (headers, body)"
    by simp
  from a show "parseMailData glib visit data =
        Inr \<lparr>From = getHeader (visit ''From'') headers ''From'',
             To = getHeader (visit ''To'') headers ''To'',
             Subject = getHeader (visit ''Subject'') headers ''Subject'',
             PlainText = body, HTMLText = []\<rparr>"
    by (simp add: parseMailData_after_headers [where visit = visit, OF h p] HasPrefix_def)
next
  assume a: "HasPrefix (TrimSpace rawLine) ''DATA'' \<and> 4 \<le> wops st \<and>
    collectMailData (input st) = (data, rest) \<and> data \<noteq> [] \<and>
    Index data (CRLF @ CRLF) = Some i \<and> line \<in> set (Split (take i data) CRLF) \<and>
    CHR '':'' \<notin> set line"
  then have "isl (parseHeadersAndBody data)"
    using parseHeadersAndBody_fails [of data] by blast
  then obtain e where "parseHeadersAndBody data = Inl e"
    by (cases "parseHeadersAndBody data") auto
  then have e: "parseMailData (lib srv) (mapOrder srv (parsed st)) data = Inl e"
    by (rule parseMailData_header_error)
  let ?st1 = "st\<lparr>wbuf := [],
          sent := sent st @ wbuf st @ [''354 Start mail input; end with <CRLF>.<CRLF>'' @ CRLF],
          wops := wops st - 2\<rparr>"
  from a have "commandStep srv rawLine st = handleData srv ?st1"
    by (simp add: commandStep_DATA)
  moreover from a have "4 \<le> wops st"
    by blast
  then have "2 \<le> wops ?st1"
    by simp
  with a e have "handleData srv ?st1 =
    Returned None
      (?st1\<lparr>input := rest, parsed := Suc (parsed ?st1), wbuf := [],
          sent := sent ?st1 @ wbuf ?st1 @ [''550 Error processing mail: '' @ message e @ CRLF],
          wops := wops ?st1 - 2\<rparr>)"
    by (intro handleData_parse_error) simp_all
  ultimately have "commandStep srv rawLine st =
         Returned None
           (st\<lparr>input := rest, parsed := Suc (parsed st), wbuf := [],
               sent := sent st @ wbuf st @
                 [''354 Start mail input; end with <CRLF>.<CRLF>'' @ CRLF,
                  ''550 Error processing mail: '' @ message e @ CRLF],
               wops := wops st - 4\<rparr>)"
    by simp
  then show "\<exists>detail. commandStep srv rawLine st =
         Returned None
           (st\<lparr>input := rest, parsed := Suc (parsed st), wbuf := [],
               sent := sent st @ wbuf st @
                 [''354 Start mail input; end with <CRLF>.<CRLF>'' @ CRLF,
                  ''550 Error processing mail: '' @ detail @ CRLF],
               wops := wops st - 4\<rparr>)"
    by blast
qed

theorem parseMailData_fails_iff_witness:
  "isl (parseMailData (lib demoServer) (mapOrder demoServer 0) ''no blank line'') \<and>
   (\<exists>detail. commandStep demoServer (''DATA'' @ CRLF) demoBadHeader =
      Returned None
        (demoBadHeader\<lparr>input := [''QUIT'' @ CRLF], parsed := 1, wbuf := [],
           sent := [''354 Start mail input; end with <CRLF>.<CRLF>'' @ CRLF,
                    ''550 Error processing mail: '' @ detail @ CRLF],
           wops := 4\<rparr>))"
proof
  have "Index ''no blank line'' (CRLF @ CRLF) = None"
    by code_simp
  with parseMailData_fails_iff [where data = "''no blank line''" and glib = "lib demoServer"
      and visit = "mapOrder demoServer 0"]
  show "isl (parseMailData (lib demoServer) (mapOrder demoServer 0) ''no blank line'')"
    by blast
next
  let ?data = "''Subject hello'' @ CRLF @ CRLF @ ''body''"
  have "HasPrefix (TrimSpace (''DATA'' @ CRLF)) ''DATA'' \<and> 4 \<le> wops demoBadHeader \<and>
    collectMailData (input demoBadHeader) = (?data, [''QUIT'' @ CRLF]) \<and> ?data \<noteq> [] \<and>
    Index ?data (CRLF @ CRLF) = Some 13 \<and> ''Subject hello'' \<in> set (Split (take 13 ?data) CRLF) \<and>
    CHR '':'' \<notin> set ''Subject hello''"
    by code_simp
  with parseMailData_fails_iff [where rawLine = "''DATA'' @ CRLF" and st = demoBadHeader
      and data = ?data and rest = "[''QUIT'' @ CRLF]" and i = 13 and line = "''Subject hello''"
      and srv = demoServer]
  have "\<exists>detail. commandStep demoServer (''DATA'' @ CRLF) demoBadHeader =
      Returned None
        (demoBadHeader\<lparr>input := [''QUIT'' @ CRLF], parsed := Suc (parsed demoBadHeader), wbuf := [],
           sent := sent demoBadHeader @ wbuf demoBadHeader @
              [''354 Start mail input; end with <CRLF>.<CRLF>'' @ CRLF,
                    ''550 Error processing mail: '' @ detail @ CRLF],
           wops := wops demoBadHeader - 4\<rparr>)"
    by blast
  then show "\<exists>detail. commandStep demoServer (''DATA'' @ CRLF) demoBadHeader =
      Returned None
        (demoBadHeader\<lparr>input := [''QUIT'' @ CRLF], parsed := 1, wbuf := [],
           sent := [''354 Start mail input; end with <CRLF>.<CRLF>'' @ CRLF,
                    ''550 Error processing mail: '' @ detail @ CRLF],
           wops := 4\<rparr>)"
    by (simp add: demoBadHeader_def demoSession_def)
qed

subsection \<open>Determinism of the header lookup\<close>

lemma find_filter: "find P xs = (case filter P xs of [] \<Rightarrow> None | x # _ \<Rightarrow> Some x)"
  by (induction xs) auto

lemma filter_rearranged:
  assumes "mset xs = mset ys" and "length (filter P xs) \<le> 1"
  shows "filter P xs = filter P ys"
proof -
  from assms(1) have m: "mset (filter P xs) = mset (filter P ys)"
    by (simp only: mset_filter)
  then have l: "length (filter P xs) = length (filter P ys)"
    by (rule mset_eq_length)
  show ?thesis
  proof (cases "filter P xs")
    case Nil
    with l show ?thesis by simp
  next
    case (Cons x xs')
    with assms(2) have xs': "xs' = []" by simp
    with Cons l obtain y where y: "filter P ys = [y]"
      by (cases "filter P ys") auto
    with m Cons xs' have "x = y" by simp
    with Cons xs' y show ?thesis by simp
  qed
qed

lemma getHeader_order:
  assumes "rangeOrder visit1" and "rangeOrder visit2" and "unambiguous headers key"
  shows "getHeader visit1 headers key = getHeader visit2 headers key"
proof -
  let ?P = "\<lambda>(k, v). EqualFold k key"
  from assms have "filter ?P headers = filter ?P (visit1 headers)"
    and "filter ?P headers = filter ?P (visit2 headers)"
    by (auto simp: rangeOrder_def unambiguous_def intro!: filter_rearranged)
  then show ?thesis
    by (simp add: getHeader_def find_filter)
qed

lemma parseHeaderLines_distinct:
  "parseHeaderLines lines headers = Inr headers' \<Longrightarrow> distinct (map fst headers) \<Longrightarrow>
     distinct (map fst headers')"
  by (induction lines arbitrary: headers)
     (auto simp: Let_def distinct_update split: option.splits)

text \<open>
  Claim C7, as amended.  Parsing the same raw text twice gives the same result,
  whatever order the map traversals take, provided that for each of the four headers
  looked up (From, To, Subject, Content-Type) at most one key of the header map folds to
  its name.  Lines that repeat a key exactly do not break this: the keys of the header
  map are distinct, a later line overwriting the value of an earlier one.
\<close>

theorem parseMailData_deterministic:
  assumes "\<forall>key. rangeOrder (visit1 key) \<and> rangeOrder (visit2 key)"
    and "\<forall>headers body. parseHeadersAndBody data = Inr (headers, body) \<longrightarrow>
           (\<forall>key\<in>set [''From'', ''To'', ''Subject'', ''Content-Type'']. unambiguous headers key)"
  shows "parseMailData glib visit1 data = parseMailData glib visit2 data \<and>
         (\<forall>headers body. parseHeadersAndBody data = Inr (headers, body) \<longrightarrow>
            distinct (map fst headers))"
proof
  show "parseMailData glib visit1 data = parseMailData glib visit2 data"
  proof (cases "parseHeadersAndBody data")
    case (Inl err)
    then show ?thesis by (simp add: parseMailData_def)
  next
    case (Inr hb)
    obtain headers body where hb: "hb = (headers, body)" by (cases hb)
    with Inr assms(2) have u: "unambiguous headers ''From''" "unambiguous headers ''To''"
      "unambiguous headers ''Subject''" "unambiguous headers ''Content-Type''"
      by auto
    from assms(1) have r: "\<And>key. rangeOrder (visit1 key)" "\<And>key. rangeOrder (visit2 key)"
      by auto
    have g: "getHeader (visit1 ''From'') headers ''From'' = getHeader (visit2 ''From'') headers ''From''"
      "getHeader (visit1 ''To'') headers ''To'' = getHeader (visit2 ''To'') headers ''To''"
      "getHeader (visit1 ''Subject'') headers ''Subject'' = getHeader (visit2 ''Subject'') headers ''Subject''"
      "getHeader (visit1 ''Content-Type'') headers ''Content-Type'' =
         getHeader (visit2 ''Content-Type'') headers ''Content-Type''"
      using u r by (auto intro: getHeader_order)
    from Inr hb have h: "parseHeadersAndBody data = Inr (headers, body)"
      by simp
    obtain mediaType params err
      where p1: "ParseMediaType glib (getHeader (visit1 ''Content-Type'') headers ''Content-Type'')
                  = (mediaType, params, err)"
      by (metis prod_cases3)
    with g(4) have p2: "ParseMediaType glib (getHeader (visit2 ''Content-Type'') headers ''Content-Type'')
                  = (mediaType, params, err)"
      by simp
    show ?thesis
      unfolding parseMailData_after_headers [where visit = visit1, OF h p1]
        parseMailData_after_headers [where visit = visit2, OF h p2]
      by (simp only: g)
  qed
next
  show "\<forall>headers body. parseHeadersAndBody data = Inr (headers, body) \<longrightarrow>
            distinct (map fst headers)"
    by (auto simp: parseHeadersAndBody_Index split: option.splits sum.splits
             dest: parseHeaderLines_distinct)
qed

text \<open>
  Claim C7 as stated fails when two keys differ only in letter case: both fold to the
  name looked up, and the value returned is that of the one visited first.
\<close>

theorem parseMailData_order_counterexample:
  "rangeOrder (inOrder ''Subject'') \<and> rangeOrder (reversed ''Subject'') \<and>
   parseMailData (lib demoServer) inOrder demoTwoSubjects =
     Inr \<lparr>From = [], To = [], Subject = ''first'', PlainText = ''body'', HTMLText = []\<rparr> \<and>
   parseMailData (lib demoServer) reversed demoTwoSubjects =
     Inr \<lparr>From = [], To = [], Subject = ''second'', PlainText = ''body'', HTMLText = []\<rparr>"
proof -
  have "rangeOrder (inOrder ''Subject'')" "rangeOrder (reversed ''Subject'')"
    by (simp_all add: rangeOrder_def inOrder_def reversed_def)
  moreover have "parseMailData (lib demoServer) inOrder demoTwoSubjects =
     Inr \<lparr>From = [], To = [], Subject = ''first'', PlainText = ''body'', HTMLText = []\<rparr>"
    by code_simp
  moreover have "parseMailData (lib demoServer) reversed demoTwoSubjects =
     Inr \<lparr>From = [], To = [], Subject = ''second'', PlainText = ''body'', HTMLText = []\<rparr>"
    by code_simp
  ultimately show ?thesis by blast
qed

theorem parseMailData_deterministic_witness:
  "parseMailData (lib demoServer) inOrder demoRepeatedSubject =
     parseMailData (lib demoServer) reversed demoRepeatedSubject \<and>
   parseMailData (lib demoServer) inOrder demoRepeatedSubject =
     Inr \<lparr>From = [], To = [], Subject = ''second'', PlainText = ''body'', HTMLText = []\<rparr>"
proof -
  have 1: "\<forall>key. rangeOrder (inOrder key) \<and> rangeOrder (reversed key)"
    by (simp add: rangeOrder_def inOrder_def reversed_def)
  have h: "parseHeadersAndBody demoRepeatedSubject = Inr ([(''Subject'', ''second'')], ''body'')"
    by code_simp
  have u: "\<forall>key\<in>set [''From'', ''To'', ''Subject'', ''Content-Type''].
             unambiguous [(''Subject'', ''second'')] key"
    by code_simp
  from h u have 2: "\<forall>headers body. parseHeadersAndBody demoRepeatedSubject = Inr (headers, body) \<longrightarrow>
           (\<forall>key\<in>set [''From'', ''To'', ''Subject'', ''Content-Type'']. unambiguous headers key)"
    by simp
  have "parseMailData (lib demoServer) inOrder demoRepeatedSubject =
     Inr \<lparr>From = [], To = [], Subject = ''second'', PlainText = ''body'', HTMLText = []\<rparr>"
    by code_simp
  with parseMailData_deterministic [OF 1 2, of "lib demoServer"] show ?thesis
    by simp
qed

subsection \<open>What a step leaves unchanged\<close>

lemma WriteString_frame [simp]:
  "mailFrom (snd (WriteString s st)) = mailFrom st"
  "rcptTo (snd (WriteString s st)) = rcptTo st"
  "dispatched (snd (WriteString s st)) = dispatched st"
  "parsed (snd (WriteString s st)) = parsed st"
  by (simp_all add: WriteString_def)

lemma Flush_frame [simp]:
  "mailFrom (snd (Flush st)) = mailFrom st"
  "rcptTo (snd (Flush st)) = rcptTo st"
  "dispatched (snd (Flush st)) = dispatched st"
  "parsed (snd (Flush st)) = parsed st"
  by (simp_all add: Flush_def)

lemma handleEHLO_frame [simp]:
  "mailFrom (handleEHLO st) = mailFrom st"
  "rcptTo (handleEHLO st) = rcptTo st"
  "dispatched (handleEHLO st) = dispatched st"
  by (simp_all add: handleEHLO_def Let_def)

lemma checked_cases:
  "checked srv label r k =
     (if fst r then Returned (Some (Errorf_w label (writeErr srv))) (snd r) else k (snd r))"
  by (cases r) (simp add: checked_def)

lemma sameSession_refl [simp]: "sameSession st st"
  by (simp add: sameSession_def)

lemma reply_frame:
  assumes "\<And>st'. sameSession st st' \<Longrightarrow> sameSession st (stepState (k st'))"
  shows "sameSession st (stepState (checked srv l1 (WriteString s st) (\<lambda>st. checked srv l2 (Flush st) k)))"
    and "sameSession st (stepState (ignored (WriteString s st) (\<lambda>st. checked srv l2 (Flush st) k)))"
proof -
  have 1: "sameSession st (snd (WriteString s st))"
    by (simp add: sameSession_def)
  have 2: "sameSession st (snd (Flush (snd (WriteString s st))))"
    by (simp add: sameSession_def)
  from assms [OF 2] 1 2
  show "sameSession st (stepState (checked srv l1 (WriteString s st) (\<lambda>st. checked srv l2 (Flush st) k)))"
    and "sameSession st (stepState (ignored (WriteString s st) (\<lambda>st. checked srv l2 (Flush st) k)))"
    by (simp_all add: checked_cases ignored_def)
qed

lemma reply_frame_end:
  "sameSession st (stepState (checked srv l1 (WriteString s st) (\<lambda>st. checked srv l2 (Flush st) (Returned r))))"
  "sameSession st (stepState (checked srv l1 (WriteString s st) (\<lambda>st. checked srv l2 (Flush st) Next)))"
  "sameSession st (stepState (ignored (WriteString s st) (\<lambda>st. checked srv l2 (Flush st) (Returned r))))"
  "sameSession st (stepState (ignored (WriteString s st) (\<lambda>st. checked srv l2 (Flush st) Next)))"
  by (rule reply_frame; simp)+

lemma collectLines_suffix: "set (snd (collectLines inp acc)) \<subseteq> set inp"
  by (induction inp arbitrary: acc) auto

lemma collectMailData_suffix: "set (snd (collectMailData inp)) \<subseteq> set inp"
  using collectLines_suffix [of inp "[]"]
  by (cases "collectLines inp []") (auto simp: collectMailData_def split: option.splits)

lemma override_From: "(if From m \<noteq> f then m\<lparr>From := f\<rparr> else m) = m\<lparr>From := f\<rparr>"
  by simp

lemma override_To: "(if To m \<noteq> t then m\<lparr>To := t\<rparr> else m) = m\<lparr>To := t\<rparr>"
  by simp

lemma handleData_parsed:
  assumes "collectMailData (input st) = (mailData, rest)" and "mailData \<noteq> []"
    and "parseMailData (lib srv) (mapOrder srv (parsed st)) mailData = Inr msg"
  shows "handleData srv st =
    (case callBackFn srv (msg\<lparr>From := mailFrom st, To := rcptTo st\<rparr>) of
       Some err \<Rightarrow>
         ignored (WriteString (''550 Error processing mail: '' @ message err @ CRLF)
           (st\<lparr>input := rest, parsed := Suc (parsed st),
               dispatched := dispatched st @ [msg\<lparr>From := mailFrom st, To := rcptTo st\<rparr>]\<rparr>)) (\<lambda>st.
         checked srv ''error flushing writer: '' (Flush st) (\<lambda>st.
         Returned None st))
     | None \<Rightarrow>
         ignored (WriteString (''250 OK'' @ CRLF)
           (st\<lparr>input := rest, parsed := Suc (parsed st),
               dispatched := dispatched st @ [msg\<lparr>From := mailFrom st, To := rcptTo st\<rparr>]\<rparr>)) (\<lambda>st.
         checked srv ''error flushing writer: '' (Flush st) (\<lambda>st.
         Next st)))"
  using assms
  by (simp add: handleData_def Let_def override_From override_To split: option.splits)

text \<open>The \<^verbatim>\<open>DATA\<close> case keeps the envelope, consumes input, and invokes the callback at
  most once, with the envelope as From and To.\<close>

lemma handleData_effect:
  "mailFrom (stepState (handleData srv st)) = mailFrom st \<and>
   rcptTo (stepState (handleData srv st)) = rcptTo st \<and>
   set (input (stepState (handleData srv st))) \<subseteq> set (input st) \<and>
   (dispatched (stepState (handleData srv st)) = dispatched st \<or>
    (\<exists>mail. dispatched (stepState (handleData srv st)) = dispatched st @ [mail] \<and>
       From mail = mailFrom st \<and> To mail = rcptTo st))"
proof -
  obtain mailData rest where c: "collectMailData (input st) = (mailData, rest)"
    by (cases "collectMailData (input st)")
  with collectMailData_suffix [of "input st"] have rest: "set rest \<subseteq> set (input st)"
    by simp
  let ?st = "st\<lparr>input := rest\<rparr>"
  show ?thesis
  proof (cases "mailData = []")
    case True
    have "sameSession ?st (stepState (checked srv ''error writing error message: ''
               (WriteString (''550 Error reading mail data'' @ CRLF) ?st) (\<lambda>st.
             checked srv ''error flushing writer: '' (Flush st) (\<lambda>st.
             Returned None st))))"
      by (rule reply_frame_end)
    with c True rest show ?thesis
      by (simp add: handleData_def sameSession_def)
  next
    case False
    show ?thesis
    proof (cases "parseMailData (lib srv) (mapOrder srv (parsed st)) mailData")
      case (Inl err)
      let ?st1 = "?st\<lparr>parsed := Suc (parsed st)\<rparr>"
      have "sameSession ?st1 (stepState (checked srv ''error writing error message: ''
                     (WriteString (''550 Error processing mail: '' @ message err @ CRLF) ?st1) (\<lambda>st.
                   checked srv ''error flushing writer: '' (Flush st) (\<lambda>st.
                   Returned None st))))"
        by (rule reply_frame_end)
      with c False Inl rest show ?thesis
        by (simp add: handleData_def sameSession_def)
    next
      case (Inr msg)
      let ?mail = "msg\<lparr>From := mailFrom st, To := rcptTo st\<rparr>"
      let ?st1 = "st\<lparr>input := rest, parsed := Suc (parsed st),
                    dispatched := dispatched st @ [?mail]\<rparr>"
      have "sameSession ?st1 (stepState (ignored (WriteString s ?st1) (\<lambda>st.
                          checked srv ''error flushing writer: '' (Flush st) (\<lambda>st.
                          Returned None st))))"
        and "sameSession ?st1 (stepState (ignored (WriteString s ?st1) (\<lambda>st.
                          checked srv ''error flushing writer: '' (Flush st) (\<lambda>st.
                          Next st))))" for s
        by (rule reply_frame_end)+
      then show ?thesis
        using rest
        by (cases "callBackFn srv ?mail")
           (simp_all add: handleData_parsed [OF c False Inr] sameSession_def)
    qed
  qed
qed


lemmas reply_fields = reply_frame_end [unfolded sameSession_def]

lemma commandStep_effect:
  "(mailFrom (stepState (commandStep srv rawLine st)) = mailFrom st \<or>
      HasPrefix (TrimSpace rawLine) ''MAIL FROM'') \<and>
   (rcptTo (stepState (commandStep srv rawLine st)) = rcptTo st \<or>
      HasPrefix (TrimSpace rawLine) ''RCPT TO'') \<and>
   set (input (stepState (commandStep srv rawLine st))) \<subseteq> set (input st) \<and>
   (dispatched (stepState (commandStep srv rawLine st)) = dispatched st \<or>
    (\<exists>mail. dispatched (stepState (commandStep srv rawLine st)) = dispatched st @ [mail] \<and>
       From mail = mailFrom st \<and> To mail = rcptTo st))"
proof (cases "HasPrefix (TrimSpace rawLine) ''DATA''")
  case True
  let ?w = "snd (WriteString (''354 Start mail input; end with <CRLF>.<CRLF>'' @ CRLF) st)"
  let ?f = "snd (Flush ?w)"
  from True DATA_not_other [OF True]
  have "commandStep srv rawLine st =
     (if fst (WriteString (''354 Start mail input; end with <CRLF>.<CRLF>'' @ CRLF) st)
      then Returned (Some (Errorf_w ''error flushing writer: '' (writeErr srv))) ?w
      else if fst (Flush ?w)
      then Returned (Some (Errorf_w ''error flushing writer: '' (writeErr srv))) ?f
      else handleData srv ?f)"
    by (simp add: commandStep_def checked_cases)
  with handleData_effect [of srv ?f] show ?thesis
    by simp
next
  case False
  then show ?thesis
    by (simp add: commandStep_def Let_def reply_fields split: sum.splits)
qed

subsection \<open>Invariants of the command loop\<close>

lemma commandLoop_invariant:
  assumes "I st"
    and "\<And>st l rest. I st \<Longrightarrow> input st = l # rest \<Longrightarrow>
           I (stepState (commandStep srv l (st\<lparr>input := rest\<rparr>)))"
  shows "I (snd (commandLoop srv st))"
  using assms
proof (induction srv st rule: commandLoop.induct)
  case (1 srv st)
  show ?case
  proof (cases "input st")
    case Nil
    with "1.prems"(1) show ?thesis
      by (simp add: commandLoop.simps [of srv st])
  next
    case (Cons l rest)
    from "1.prems"(2) [OF "1.prems"(1) Cons]
    have step: "I (stepState (commandStep srv l (st\<lparr>input := rest\<rparr>)))" .
    show ?thesis
    proof (cases "commandStep srv l (st\<lparr>input := rest\<rparr>)")
      case (Returned r st')
      with Cons step show ?thesis
        by (simp add: commandLoop.simps [of srv st])
    next
      case (Next st')
      with step have "I st'" by simp
      from "1.IH" [OF Cons Next this "1.prems"(2)] Cons Next show ?thesis
        by (simp add: commandLoop.simps [of srv st])
    qed
  qed
qed

lemma commandLoop_no_sender:
  assumes "\<forall>l\<in>set (input st). \<not> HasPrefix (TrimSpace l) ''MAIL FROM''"
    and "mailFrom st = []" and "\<forall>mail\<in>set (dispatched st). From mail = []"
  shows "\<forall>mail\<in>set (dispatched (snd (commandLoop srv st))). From mail = []"
proof -
  let ?I = "\<lambda>st. (\<forall>l\<in>set (input st). \<not> HasPrefix (TrimSpace l) ''MAIL FROM'') \<and>
     mailFrom st = [] \<and> (\<forall>mail\<in>set (dispatched st). From mail = [])"
  have "?I (snd (commandLoop srv st))"
  proof (rule commandLoop_invariant [where I = ?I])
    show "?I st" using assms by simp
  next
    fix st :: session and l rest
    assume i: "?I st" and inp: "input st = l # rest"
    with commandStep_effect [of srv l "st\<lparr>input := rest\<rparr>"]
    show "?I (stepState (commandStep srv l (st\<lparr>input := rest\<rparr>)))"
      by auto
  qed
  then show ?thesis by simp
qed

lemma commandLoop_no_recipient:
  assumes "\<forall>l\<in>set (input st). \<not> HasPrefix (TrimSpace l) ''RCPT TO''"
    and "rcptTo st = []" and "\<forall>mail\<in>set (dispatched st). To mail = []"
  shows "\<forall>mail\<in>set (dispatched (snd (commandLoop srv st))). To mail = []"
proof -
  let ?I = "\<lambda>st. (\<forall>l\<in>set (input st). \<not> HasPrefix (TrimSpace l) ''RCPT TO'') \<and>
     rcptTo st = [] \<and> (\<forall>mail\<in>set (dispatched st). To mail = [])"
  have "?I (snd (commandLoop srv st))"
  proof (rule commandLoop_invariant [where I = ?I])
    show "?I st" using assms by simp
  next
    fix st :: session and l rest
    assume i: "?I st" and inp: "input st = l # rest"
    with commandStep_effect [of srv l "st\<lparr>input := rest\<rparr>"]
    show "?I (stepState (commandStep srv l (st\<lparr>input := rest\<rparr>)))"
      by auto
  qed
  then show ?thesis by simp
qed

lemma handleConnection_cases:
  "dispatched (snd (handleConnection srv clientLines budget)) = [] \<or>
   (\<exists>st. mailFrom st = [] \<and> rcptTo st = [] \<and> input st = clientLines \<and> dispatched st = [] \<and>
      snd (handleConnection srv clientLines budget) = snd (commandLoop srv st))"
proof -
  let ?st = "\<lparr>mailFrom = [], rcptTo = [], input = clientLines, wbuf = [], sent = [],
                wops = budget, dispatched = [], parsed = 0\<rparr>"
  let ?w = "snd (WriteString (''220 Welcome to the SMTP server'' @ CRLF) ?st)"
  let ?f = "snd (Flush ?w)"
  have f: "mailFrom ?f = [] \<and> rcptTo ?f = [] \<and> input ?f = clientLines \<and> dispatched ?f = []"
    by simp
  have w: "dispatched ?w = []"
    by simp
  show ?thesis
  proof (cases "deadlineErr srv")
    case (Some err)
    then show ?thesis by (simp add: handleConnection_def)
  next
    case None
    show ?thesis
    proof (cases "fst (WriteString (''220 Welcome to the SMTP server'' @ CRLF) ?st)")
      case True
      with None w show ?thesis
        by (simp add: handleConnection_def checked_cases)
    next
      case False
      show ?thesis
      proof (cases "fst (Flush ?w)")
        case True
        with None \<open>\<not> fst (WriteString (''220 Welcome to the SMTP server'' @ CRLF) ?st)\<close>
        have "snd (handleConnection srv clientLines budget) = ?f"
          by (simp add: handleConnection_def checked_cases)
        with f show ?thesis by simp
      next
        case flush: False
        with None False
        have "snd (handleConnection srv clientLines budget) = snd (commandLoop srv ?f)"
          by (simp add: handleConnection_def checked_cases)
        with f show ?thesis by blast
      qed
    qed
  qed
qed

text \<open>
  Claim C9.  Whenever an iteration of the command loop invokes the callback, the
  message it passes has From and To equal to the envelope of the session at that
  moment, whatever the headers of the message said.  In a session whose client sends
  no MAIL FROM line every message passed to the callback has the empty From, and in a
  session without RCPT TO line the empty To.
\<close>

theorem callback_gets_envelope:
  "(dispatched (stepState (commandStep srv rawLine st)) = dispatched st \<or>
    (\<exists>mail. dispatched (stepState (commandStep srv rawLine st)) = dispatched st @ [mail] \<and>
       From mail = mailFrom st \<and> To mail = rcptTo st)) \<and>
   ((\<forall>l\<in>set clientLines. \<not> HasPrefix (TrimSpace l) ''MAIL FROM'') \<longrightarrow>
      (\<forall>mail\<in>set (dispatched (snd (handleConnection srv clientLines budget))). From mail = [])) \<and>
   ((\<forall>l\<in>set clientLines. \<not> HasPrefix (TrimSpace l) ''RCPT TO'') \<longrightarrow>
      (\<forall>mail\<in>set (dispatched (snd (handleConnection srv clientLines budget))). To mail = []))"
proof (intro conjI impI)
  show "dispatched (stepState (commandStep srv rawLine st)) = dispatched st \<or>
    (\<exists>mail. dispatched (stepState (commandStep srv rawLine st)) = dispatched st @ [mail] \<and>
       From mail = mailFrom st \<and> To mail = rcptTo st)"
    using commandStep_effect [of srv rawLine st] by blast
next
  assume a: "\<forall>l\<in>set clientLines. \<not> HasPrefix (TrimSpace l) ''MAIL FROM''"
  from handleConnection_cases [of srv clientLines budget]
  show "\<forall>mail\<in>set (dispatched (snd (handleConnection srv clientLines budget))). From mail = []"
  proof
    assume "dispatched (snd (handleConnection srv clientLines budget)) = []"
    then show ?thesis by simp
  next
    assume "\<exists>st. mailFrom st = [] \<and> rcptTo st = [] \<and> input st = clientLines \<and> dispatched st = [] \<and>
      snd (handleConnection srv clientLines budget) = snd (commandLoop srv st)"
    then obtain st where "mailFrom st = []" "input st = clientLines" "dispatched st = []"
      "snd (handleConnection srv clientLines budget) = snd (commandLoop srv st)"
      by blast
    with a commandLoop_no_sender [of st srv] show ?thesis by simp
  qed
next
  assume a: "\<forall>l\<in>set clientLines. \<not> HasPrefix (TrimSpace l) ''RCPT TO''"
  from handleConnection_cases [of srv clientLines budget]
  show "\<forall>mail\<in>set (dispatched (snd (handleConnection srv clientLines budget))). To mail = []"
  proof
    assume "dispatched (snd (handleConnection srv clientLines budget)) = []"
    then show ?thesis by simp
  next
    assume "\<exists>st. mailFrom st = [] \<and> rcptTo st = [] \<and> input st = clientLines \<and> dispatched st = [] \<and>
      snd (handleConnection srv clientLines budget) = snd (commandLoop srv st)"
    then obtain st where "rcptTo st = []" "input st = clientLines" "dispatched st = []"
      "snd (handleConnection srv clientLines budget) = snd (commandLoop srv st)"
      by blast
    with a commandLoop_no_recipient [of st srv] show ?thesis by simp
  qed
qed

theorem callback_gets_envelope_witness:
  "dispatched (snd (handleConnection demoServer demoNoSender 20)) =
     [\<lparr>From = [], To = ''b@y'', Subject = ''s'', PlainText = ''body'', HTMLText = []\<rparr>] \<and>
   From (hd (dispatched (snd (handleConnection demoServer demoNoSender 20)))) = []"
proof -
  have h: "\<forall>l\<in>set demoNoSender. \<not> HasPrefix (TrimSpace l) ''MAIL FROM''"
    by code_simp
  have d: "dispatched (snd (handleConnection demoServer demoNoSender 20)) =
     [\<lparr>From = [], To = ''b@y'', Subject = ''s'', PlainText = ''body'', HTMLText = []\<rparr>]"
    by code_simp
  from callback_gets_envelope [of demoServer _ _ demoNoSender 20] h
  have "\<forall>mail\<in>set (dispatched (snd (handleConnection demoServer demoNoSender 20))). From mail = []"
    by blast
  with d show ?thesis by simp
qed

subsection \<open>A complete transaction\<close>

lemma MAIL_not_other:
  assumes "HasPrefix l ''MAIL FROM''"
  shows "\<not> HasPrefix l ''EHLO''"
  using HasPrefix_agree [OF assms, of "''EHLO''"] by auto

lemma RCPT_not_other:
  assumes "HasPrefix l ''RCPT TO''"
  shows "\<not> HasPrefix l ''EHLO''" "\<not> HasPrefix l ''MAIL FROM''"
  using HasPrefix_agree [OF assms, of "''EHLO''"] HasPrefix_agree [OF assms, of "''MAIL FROM''"]
  by auto

lemma commandStep_MAIL:
  assumes "HasPrefix (TrimSpace rawLine) ''MAIL FROM''"
    and "parseAddress (TrimSpace rawLine) = Inr addr" and "2 \<le> wops st"
  shows "commandStep srv rawLine st =
    Next (st\<lparr>mailFrom := addr, wbuf := [], sent := sent st @ wbuf st @ [''250 OK'' @ CRLF],
            wops := wops st - 2\<rparr>)"
proof -
  have "2 \<le> wops (st\<lparr>mailFrom := addr\<rparr>)"
    using assms(3) by simp
  from reply_checked [OF this, of srv _ "''250 OK'' @ CRLF" _ Next]
  show ?thesis
    using assms(1,2) MAIL_not_other [OF assms(1)] by (simp add: commandStep_def)
qed

lemma commandStep_RCPT:
  assumes "HasPrefix (TrimSpace rawLine) ''RCPT TO''"
    and "parseAddress (TrimSpace rawLine) = Inr addr" and "2 \<le> wops st"
  shows "commandStep srv rawLine st =
    Next (st\<lparr>rcptTo := addr, wbuf := [], sent := sent st @ wbuf st @ [''250 OK'' @ CRLF],
            wops := wops st - 2\<rparr>)"
proof -
  have "2 \<le> wops (st\<lparr>rcptTo := addr\<rparr>)"
    using assms(3) by simp
  from reply_ignored [OF this, of "''250 OK'' @ CRLF" srv _ Next]
  show ?thesis
    using assms(1,2) RCPT_not_other [OF assms(1)] by (simp add: commandStep_def)
qed

lemma collectLines_until_dot:
  assumes "\<forall>l\<in>set ls. TrimSpace l \<noteq> ''.''" and "TrimSpace dot = ''.''"
  shows "collectLines (ls @ dot # rest) acc = (Some (acc @ concat ls), rest)"
  using assms by (induction ls arbitrary: acc) simp_all

lemma collectMailData_until_dot:
  assumes "\<forall>l\<in>set ls. TrimSpace l \<noteq> ''.''" and "TrimSpace dot = ''.''"
  shows "collectMailData (ls @ dot # rest) = (TrimSpace (concat ls), rest)"
  by (simp add: collectMailData_def collectLines_until_dot [OF assms])

lemma getHeader_unique:
  assumes "rangeOrder visit" and "unambiguous headers key"
    and "(k, v) \<in> set headers" and "EqualFold k key"
  shows "getHeader visit headers key = v"
proof -
  let ?P = "\<lambda>(k, v). EqualFold k key"
  from assms(1,2) have f: "filter ?P (visit headers) = filter ?P headers"
    by (auto simp: rangeOrder_def unambiguous_def intro!: filter_rearranged [symmetric])
  from assms(3,4) have "(k, v) \<in> set (filter ?P headers)"
    by simp
  moreover from assms(2) have "length (filter ?P headers) \<le> 1"
    by (simp add: unambiguous_def)
  ultimately have "filter ?P headers = [(k, v)]"
    by (cases "filter ?P headers") auto
  with f show ?thesis
    by (simp add: getHeader_def find_filter)
qed

lemma commandLoop_Next:
  "input st = l # rest \<Longrightarrow> commandStep srv l (st\<lparr>input := rest\<rparr>) = Next st' \<Longrightarrow>
     commandLoop srv st = commandLoop srv st'"
  by (simp add: commandLoop.simps [of srv st])

lemma commandLoop_dispatched:
  "prefix (dispatched st) (dispatched (snd (commandLoop srv st)))"
proof (rule commandLoop_invariant [where I = "\<lambda>s. prefix (dispatched st) (dispatched s)"])
  show "prefix (dispatched st) (dispatched st)" by simp
next
  fix s :: session and l rest
  assume "prefix (dispatched st) (dispatched s)"
  with commandStep_effect [of srv l "s\<lparr>input := rest\<rparr>"]
  show "prefix (dispatched st) (dispatched (stepState (commandStep srv l (s\<lparr>input := rest\<rparr>))))"
    by (auto simp: prefix_def)
qed

lemma commandLoop_first_step:
  assumes "input st = l # rest"
  shows "prefix (dispatched (stepState (commandStep srv l (st\<lparr>input := rest\<rparr>))))
           (dispatched (snd (commandLoop srv st)))"
proof (cases "commandStep srv l (st\<lparr>input := rest\<rparr>)")
  case (Returned r st')
  with assms show ?thesis
    by (simp add: commandLoop.simps [of srv st])
next
  case (Next st')
  with assms commandLoop_dispatched [of st' srv] show ?thesis
    by (simp add: commandLoop.simps [of srv st])
qed

lemma handleData_dispatches:
  assumes "collectMailData (input st) = (mailData, rest)" and "mailData \<noteq> []"
    and "parseMailData (lib srv) (mapOrder srv (parsed st)) mailData = Inr msg"
  shows "dispatched (stepState (handleData srv st)) =
           dispatched st @ [msg\<lparr>From := mailFrom st, To := rcptTo st\<rparr>]"
  by (cases "callBackFn srv (msg\<lparr>From := mailFrom st, To := rcptTo st\<rparr>)")
     (simp_all add: handleData_parsed [OF assms] reply_fields)

lemma parseHeadersAndBody_nonempty: "parseHeadersAndBody data = Inr hb \<Longrightarrow> data \<noteq> []"
  by (auto simp: parseHeadersAndBody_Index CRLF_def)

text \<open>
  A transaction for a message that \<^verbatim>\<open>parseHeadersAndBody\<close> splits into the given
  headers and body: the callback is invoked with the envelope, the Subject found and
  the body.
\<close>

lemma transaction_of_parsed_message:
  assumes mail: "HasPrefix (TrimSpace l1) ''MAIL FROM''" "parseAddress (TrimSpace l1) = Inr sender"
    and rcpt: "HasPrefix (TrimSpace l2) ''RCPT TO''" "parseAddress (TrimSpace l2) = Inr recipient"
    and data: "HasPrefix (TrimSpace l3) ''DATA''"
    and lines: "\<forall>l\<in>set dataLines. TrimSpace l \<noteq> ''.''" "TrimSpace dot = ''.''"
    and raw: "parseHeadersAndBody (TrimSpace (concat dataLines)) = Inr (headers, body)"
    and subj: "(key, subject) \<in> set headers" "EqualFold key ''Subject''"
      "unambiguous headers ''Subject''" "rangeOrder (mapOrder srv (parsed st) ''Subject'')"
    and ctype: "ParseMediaType (lib srv)
        (getHeader (mapOrder srv (parsed st) ''Content-Type'') headers ''Content-Type'')
          = (mediaType, params, err)"
      "\<not> HasPrefix mediaType ''multipart/''"
      "getHeader (mapOrder srv (parsed st) ''Content-Type'') headers ''Content-Type'' = [] \<or> err = None"
    and writes: "6 \<le> wops st"
  shows "prefix
    (dispatched st @
       [\<lparr>From = sender, To = recipient, Subject = subject, PlainText = body, HTMLText = []\<rparr>])
    (dispatched (snd (commandLoop srv (st\<lparr>input := l1 # l2 # l3 # dataLines @ dot # rest\<rparr>))))"
proof -
  let ?ok = "''250 OK'' @ CRLF"
  let ?go = "''354 Start mail input; end with <CRLF>.<CRLF>'' @ CRLF"
  let ?raw = "TrimSpace (concat dataLines)"
  define st0 where "st0 = st\<lparr>input := l1 # l2 # l3 # dataLines @ dot # rest\<rparr>"
  define st1 where "st1 = st\<lparr>mailFrom := sender, input := l2 # l3 # dataLines @ dot # rest,
    wbuf := [], sent := sent st @ wbuf st @ [?ok], wops := wops st - 2\<rparr>"
  define st2 where "st2 = st\<lparr>mailFrom := sender, rcptTo := recipient,
    input := l3 # dataLines @ dot # rest,
    wbuf := [], sent := sent st @ wbuf st @ [?ok, ?ok], wops := wops st - 4\<rparr>"
  define st3 where "st3 = st\<lparr>mailFrom := sender, rcptTo := recipient,
    input := dataLines @ dot # rest,
    wbuf := [], sent := sent st @ wbuf st @ [?ok, ?ok, ?go], wops := wops st - 6\<rparr>"
  have "commandStep srv l1 (st0\<lparr>input := l2 # l3 # dataLines @ dot # rest\<rparr>) = Next st1"
    using writes by (simp add: commandStep_MAIL [OF mail] st0_def st1_def)
  then have 1: "commandLoop srv st0 = commandLoop srv st1"
    by (intro commandLoop_Next) (simp_all add: st0_def)
  have "commandStep srv l2 (st1\<lparr>input := l3 # dataLines @ dot # rest\<rparr>) = Next st2"
    using writes by (simp add: commandStep_RCPT [OF rcpt] st1_def st2_def)
  then have 2: "commandLoop srv st1 = commandLoop srv st2"
    by (intro commandLoop_Next) (simp_all add: st1_def)
  have 3: "commandStep srv l3 (st2\<lparr>input := dataLines @ dot # rest\<rparr>) = handleData srv st3"
  proof -
    have "st2\<lparr>input := dataLines @ dot # rest, wbuf := [],
          sent := sent st2 @ wbuf st2 @ [?go], wops := wops st2 - 2\<rparr> = st3"
      using writes by (simp add: st2_def st3_def)
    moreover have "2 \<le> wops (st2\<lparr>input := dataLines @ dot # rest\<rparr>)"
      using writes by (simp add: st2_def)
    ultimately show ?thesis
      using commandStep_DATA [OF data, of "st2\<lparr>input := dataLines @ dot # rest\<rparr>" srv]
      by simp
  qed
  let ?visit = "mapOrder srv (parsed st)"
  have c: "collectMailData (input st3) = (?raw, rest)"
    by (simp add: st3_def collectMailData_until_dot [OF lines])
  have ne: "?raw \<noteq> []"
    using raw by (rule parseHeadersAndBody_nonempty)
  have s: "getHeader (?visit ''Subject'') headers ''Subject'' = subject"
    using subj by (intro getHeader_unique [where k = key]) simp_all
  have "parseMailData (lib srv) ?visit ?raw =
    Inr \<lparr>From = getHeader (?visit ''From'') headers ''From'',
         To = getHeader (?visit ''To'') headers ''To'',
         Subject = subject, PlainText = body, HTMLText = []\<rparr>"
    using ctype(2,3) s
    by (auto simp: parseMailData_after_headers [where visit = ?visit, OF raw ctype(1)])
  then have "parseMailData (lib srv) (mapOrder srv (parsed st3)) ?raw =
    Inr \<lparr>From = getHeader (?visit ''From'') headers ''From'',
         To = getHeader (?visit ''To'') headers ''To'',
         Subject = subject, PlainText = body, HTMLText = []\<rparr>"
    by (simp add: st3_def)
  from handleData_dispatches [OF c ne this]
  have "dispatched (stepState (handleData srv st3)) =
    dispatched st @
      [\<lparr>From = sender, To = recipient, Subject = subject, PlainText = body, HTMLText = []\<rparr>]"
    by (simp add: st3_def)
  with 3 commandLoop_first_step [of st2 l3 "dataLines @ dot # rest" srv]
  have "prefix
    (dispatched st @
       [\<lparr>From = sender, To = recipient, Subject = subject, PlainText = body, HTMLText = []\<rparr>])
    (dispatched (snd (commandLoop srv st2)))"
    by (simp add: st2_def)
  with 1 2 show ?thesis
    by (simp add: st0_def)
qed

subsection \<open>Trimming a text that ends in a body\<close>

lemma unicodeSpaces_high: "u \<in> set unicodeSpaces \<Longrightarrow> c \<in> set u \<Longrightarrow> 128 \<le> (of_char c :: nat)"
  by (auto simp: unicodeSpaces_def)

lemma HasSuffix_append:
  assumes "B \<noteq> []" and "x \<noteq> []" and "(of_char (last x) :: nat) < 128"
    and "u \<in> set unicodeSpaces"
  shows "HasSuffix (x @ B) u = HasSuffix B u"
proof (cases "length u \<le> length B")
  case True
  then have "length (x @ B) - length u = length x + (length B - length u)"
    by simp
  with True show ?thesis
    by (simp add: HasSuffix_def)
next
  case False
  then have nB: "\<not> HasSuffix B u"
    by (simp add: HasSuffix_def)
  have "\<not> HasSuffix (x @ B) u"
  proof
    assume "HasSuffix (x @ B) u"
    then have le: "length u \<le> length x + length B"
      and u: "drop (length x + length B - length u) (x @ B) = u"
      by (simp_all add: HasSuffix_def)
    let ?n = "length x + length B - length u"
    from False le have n: "?n < length x"
      by simp
    then have "drop ?n (x @ B) = drop ?n x @ B"
      by simp
    moreover from n have "drop ?n x \<noteq> []" "last (drop ?n x) = last x"
      by simp_all
    ultimately have "last x \<in> set u"
      using u by (metis last_in_set Un_iff set_append)
    with unicodeSpaces_high [OF assms(4), of "last x"] assms(3) show False
      by simp
  qed
  with nB show ?thesis by simp
qed

lemma trailingSpace_append:
  assumes "B \<noteq> []" and "x \<noteq> []" and "(of_char (last x) :: nat) < 128"
  shows "trailingSpace (x @ B) = trailingSpace B"
proof -
  have "find (HasSuffix (x @ B)) unicodeSpaces = find (HasSuffix B) unicodeSpaces"
    by (rule find_cong) (simp_all add: HasSuffix_append [OF assms])
  with assms(1) show ?thesis
    by (simp add: trailingSpace_def)
qed

lemma trailingSpace_le: "trailingSpace s \<le> length s"
proof (cases "find (HasSuffix s) unicodeSpaces")
  case None
  then show ?thesis
    by (cases s) (simp_all add: trailingSpace_def)
next
  case (Some u)
  then have "HasSuffix s u"
    by (auto simp: find_Some_iff)
  then have "length u \<le> length s"
    by (simp add: HasSuffix_def)
  with Some show ?thesis
    by (cases s) (simp_all add: trailingSpace_def)
qed

lemma TrimRightSpace_append:
  assumes "x \<noteq> []" and "(of_char (last x) :: nat) < 128"
  shows "TrimRightSpace B \<noteq> [] \<Longrightarrow> TrimRightSpace (x @ B) = x @ TrimRightSpace B"
proof (induction B rule: TrimRightSpace.induct)
  case (1 B)
  from "1.prems" have ne: "B \<noteq> []"
    by (auto simp: TrimRightSpace.simps [of "[]"] trailingSpace_def)
  note t = trailingSpace_append [OF ne assms]
  show ?case
  proof (cases "trailingSpace B = 0")
    case True
    with t show ?thesis
      by (simp add: TrimRightSpace.simps [of B] TrimRightSpace.simps [of "x @ B"])
  next
    case False
    with "1.prems" have "TrimRightSpace (take (length B - trailingSpace B) B) \<noteq> []"
      by (simp add: TrimRightSpace.simps [of B])
    from "1.IH" [OF False this]
    have "TrimRightSpace (x @ take (length B - trailingSpace B) B) =
            x @ TrimRightSpace (take (length B - trailingSpace B) B)" .
    moreover have "take (length (x @ B) - trailingSpace B) (x @ B) =
            x @ take (length B - trailingSpace B) B"
      using trailingSpace_le [of B] by simp
    ultimately show ?thesis
      using False t
      by (simp add: TrimRightSpace.simps [of B] TrimRightSpace.simps [of "x @ B"])
  qed
qed

lemma HasPrefix_append:
  assumes "y \<noteq> []" and "(of_char (hd y) :: nat) < 128" and "a \<noteq> []"
    and "u \<in> set unicodeSpaces"
  shows "HasPrefix (a @ y) u = HasPrefix a u"
proof (cases "length u \<le> length a")
  case True
  then show ?thesis
    by (simp add: HasPrefix_def)
next
  case False
  then have na: "\<not> HasPrefix a u"
    by (auto simp: HasPrefix_def)
  have "\<not> HasPrefix (a @ y) u"
  proof
    assume "HasPrefix (a @ y) u"
    then have "take (length u) (a @ y) = u"
      by (simp only: HasPrefix_def)
    with False have u: "a @ take (length u - length a) y = u"
      by simp
    obtain h y' where y: "y = h # y'"
      using assms(1) by (cases y) auto
    from False obtain m where m: "length u - length a = Suc m"
      by (cases "length u - length a") auto
    from u y m have "a @ h # take m y' = u"
      by simp
    then have "h \<in> set u"
      by auto
    with unicodeSpaces_high [OF assms(4), of h] assms(2) y show False
      by simp
  qed
  with na show ?thesis by simp
qed

lemma leadingSpace_le: "leadingSpace s \<le> length s"
proof (cases "find (HasPrefix s) unicodeSpaces")
  case None
  then show ?thesis
    by (cases s) (simp_all add: leadingSpace_def)
next
  case (Some u)
  then have "HasPrefix s u"
    by (auto simp: find_Some_iff)
  then have "length (take (length u) s) = length u"
    by (simp only: HasPrefix_def)
  then have "length u \<le> length s"
    by simp
  with Some show ?thesis
    by (cases s) (simp_all add: leadingSpace_def)
qed

lemma leadingSpace_append:
  assumes "y \<noteq> []" and "(of_char (hd y) :: nat) < 128" and "a \<noteq> []"
  shows "leadingSpace (a @ y) = leadingSpace a"
proof -
  have "find (HasPrefix (a @ y)) unicodeSpaces = find (HasPrefix a) unicodeSpaces"
    by (rule find_cong) (simp_all add: HasPrefix_append [OF assms])
  with assms(3) show ?thesis
    by (cases a) (simp_all add: leadingSpace_def)
qed

lemma leadingSpace_ascii:
  assumes "y \<noteq> []" and "(of_char (hd y) :: nat) < 128" and "\<not> asciiSpace (hd y)"
  shows "leadingSpace y = 0"
proof -
  have "\<not> HasPrefix y u" if "u \<in> set unicodeSpaces" for u
  proof
    assume "HasPrefix y u"
    moreover from that have "u \<noteq> []"
      by (auto simp: unicodeSpaces_def)
    ultimately obtain c u' where u': "u = c # u'"
      by (cases u) auto
    obtain h y' where y: "y = h # y'"
      using assms(1) by (cases y) auto
    from \<open>HasPrefix y u\<close> u' y have "h = c"
      by (simp add: HasPrefix_def)
    with u' have "h \<in> set u"
      by simp
    with unicodeSpaces_high [OF that, of h] assms(2) y show False
      by simp
  qed
  then have "find (HasPrefix y) unicodeSpaces = None"
    by (simp add: find_None_iff)
  with assms show ?thesis
    by (cases y) (simp_all add: leadingSpace_def)
qed

lemma TrimLeftSpace_append:
  assumes "y \<noteq> []" and "(of_char (hd y) :: nat) < 128" and "\<not> asciiSpace (hd y)"
  shows "TrimLeftSpace (a @ y) = TrimLeftSpace a @ y"
proof (induction a rule: TrimLeftSpace.induct)
  case (1 a)
  show ?case
  proof (cases "a = []")
    case True
    with leadingSpace_ascii [OF assms] show ?thesis
      by (simp add: TrimLeftSpace.simps [of y] TrimLeftSpace.simps [of "[]"] leadingSpace_def)
  next
    case False
    note l = leadingSpace_append [OF assms(1,2) False]
    show ?thesis
    proof (cases "leadingSpace a = 0")
      case True
      with l show ?thesis
        by (simp add: TrimLeftSpace.simps [of a] TrimLeftSpace.simps [of "a @ y"])
    next
      case nz: False
      from "1.IH" [OF nz] leadingSpace_le [of a] l nz show ?thesis
        by (simp add: TrimLeftSpace.simps [of a] TrimLeftSpace.simps [of "a @ y"])
    qed
  qed
qed

lemma TrimLeftSpace_suffix: "\<exists>n. TrimLeftSpace s = drop n s"
proof (induction s rule: TrimLeftSpace.induct)
  case (1 s)
  show ?case
  proof (cases "leadingSpace s = 0")
    case True
    then have "TrimLeftSpace s = drop 0 s"
      by (simp add: TrimLeftSpace.simps [of s])
    then show ?thesis by blast
  next
    case False
    from "1.IH" [OF False] obtain n where "TrimLeftSpace (drop (leadingSpace s) s) = drop n (drop (leadingSpace s) s)"
      by blast
    with False have "TrimLeftSpace s = drop (n + leadingSpace s) s"
      by (simp add: TrimLeftSpace.simps [of s] add.commute)
    then show ?thesis by blast
  qed
qed

lemma TrimLeftSpace_set: "set (TrimLeftSpace s) \<subseteq> set s"
  using TrimLeftSpace_suffix [of s] by (auto dest: in_set_dropD)

lemma TrimLeftSpace_idem: "TrimLeftSpace (TrimLeftSpace s) = TrimLeftSpace s"
proof (induction s rule: TrimLeftSpace.induct)
  case (1 s)
  show ?case
  proof (cases "leadingSpace s = 0")
    case True
    then have "TrimLeftSpace s = s"
      by (simp add: TrimLeftSpace.simps [of s])
    then show ?thesis by simp
  next
    case False
    with "1.IH" [OF False] show ?thesis
      by (simp add: TrimLeftSpace.simps [of s])
  qed
qed

lemma TrimSpace_TrimLeftSpace: "TrimSpace (TrimLeftSpace s) = TrimSpace s"
  by (simp add: TrimSpace_def TrimLeftSpace_idem)

subsection \<open>Splitting a text made of lines\<close>

lemma CR_LF [simp]: "CR \<noteq> LF" "LF \<noteq> CR"
  by (simp_all add: CR_def LF_def)

lemma CRLF_simps [simp]: "CRLF \<noteq> []" "length CRLF = 2"
  by (simp_all add: CRLF_def)

lemma concat_lines: "ls \<noteq> [] \<Longrightarrow> concat (map (\<lambda>l. l @ CRLF) ls) = Join ls CRLF @ CRLF"
  by (induction ls CRLF rule: Join.induct) simp_all

lemma HasPrefix_Cons: "HasPrefix (c # s) (d # p) \<longleftrightarrow> c = d \<and> HasPrefix s p"
  by (simp add: HasPrefix_def)

lemma HasPrefix_Nil [simp]: "HasPrefix s []" "HasPrefix [] p \<longleftrightarrow> p = []"
  by (auto simp: HasPrefix_def)

lemma HasPrefix_same [simp]: "HasPrefix (p @ s) p"
  by (simp add: HasPrefix_def)

lemma Index_CRLF_None: "LF \<notin> set a \<Longrightarrow> Index a CRLF = None"
proof (induction a)
  case Nil
  then show ?case by (simp add: CRLF_def)
next
  case (Cons c a)
  then have "\<not> HasPrefix (c # a) CRLF"
    by (cases a) (auto simp: CRLF_def HasPrefix_Cons)
  with Cons show ?case by simp
qed

lemma Index_CRLF_first: "LF \<notin> set a \<Longrightarrow> Index (a @ CRLF @ rest) CRLF = Some (length a)"
proof (induction a)
  case Nil
  then show ?case
    by (cases "CRLF @ rest") (simp_all add: CRLF_def HasPrefix_Cons)
next
  case (Cons c a)
  then have "\<not> HasPrefix ((c # a) @ CRLF @ rest) CRLF"
    by (cases a) (auto simp: CRLF_def HasPrefix_Cons)
  with Cons show ?case by simp
qed

lemma Split_Join:
  "ls \<noteq> [] \<Longrightarrow> \<forall>l\<in>set ls. LF \<notin> set l \<Longrightarrow> Split (Join ls CRLF) CRLF = ls"
proof (induction ls CRLF rule: Join.induct)
  case 1
  then show ?case by simp
next
  case (2 l)
  then show ?case
    by (simp add: Split.simps [of l] Index_CRLF_None)
next
  case (3 l l' ls)
  then have "Index (l @ CRLF @ Join (l' # ls) CRLF) CRLF = Some (length l)"
    by (simp add: Index_CRLF_first)
  with 3 show ?case
    by (simp add: Split.simps [of "l @ CRLF @ Join (l' # ls) CRLF"])
qed

lemma Index_blank_here:
  "LF \<notin> set a \<Longrightarrow> Index (a @ CRLF @ CRLF @ rest) (CRLF @ CRLF) = Some (length a)"
proof (induction a)
  case Nil
  then show ?case
    by (simp add: CRLF_def HasPrefix_Cons)
next
  case (Cons c a)
  then have "\<not> HasPrefix ((c # a) @ CRLF @ CRLF @ rest) (CRLF @ CRLF)"
    by (cases a) (auto simp: CRLF_def HasPrefix_Cons)
  with Cons show ?case by simp
qed

lemma Index_blank_later:
  assumes "t \<noteq> []" and "hd t \<noteq> CR"
  shows "LF \<notin> set a \<Longrightarrow>
    Index (a @ CRLF @ t) (CRLF @ CRLF) = map_option (\<lambda>i. length a + 2 + i) (Index t (CRLF @ CRLF))"
proof (induction a)
  case Nil
  obtain h t' where t: "t = h # t'"
    using assms(1) by (cases t) auto
  with assms(2) have "h \<noteq> CR" by simp
  with t show ?case
    by (simp add: CRLF_def HasPrefix_Cons option.map_comp comp_def)
next
  case (Cons c a)
  then have "\<not> HasPrefix ((c # a) @ CRLF @ t) (CRLF @ CRLF)"
    by (cases a) (auto simp: CRLF_def HasPrefix_Cons)
  with Cons show ?case
    by (simp add: option.map_comp comp_def)
qed

lemma Join_nonempty: "ls \<noteq> [] \<Longrightarrow> hd ls \<noteq> [] \<Longrightarrow> Join ls sep \<noteq> [] \<and> hd (Join ls sep) = hd (hd ls)"
  by (induction ls sep rule: Join.induct) simp_all

lemma Index_blank_Join:
  "ls \<noteq> [] \<Longrightarrow> \<forall>l\<in>set ls. l \<noteq> [] \<and> CR \<notin> set l \<and> LF \<notin> set l \<Longrightarrow>
     Index (Join ls CRLF @ CRLF @ CRLF @ body) (CRLF @ CRLF) = Some (length (Join ls CRLF))"
proof (induction ls CRLF rule: Join.induct)
  case 1
  then show ?case by simp
next
  case (2 l)
  then show ?case by (simp add: Index_blank_here)
next
  case (3 l l' ls)
  let ?t = "Join (l' # ls) CRLF @ CRLF @ CRLF @ body"
  from "3.prems" Join_nonempty [of "l' # ls" CRLF]
  have j: "Join (l' # ls) CRLF \<noteq> []" "hd (Join (l' # ls) CRLF) = hd l'" "l' \<noteq> []"
    by simp_all
  then have "?t \<noteq> []" "hd ?t = hd l'"
    by simp_all
  moreover from "3.prems" j(3) have "hd l' \<noteq> CR"
    by (metis hd_in_set list.set_intros(1,2))
  ultimately have "Index (l @ CRLF @ ?t) (CRLF @ CRLF) =
      map_option (\<lambda>i. length l + 2 + i) (Index ?t (CRLF @ CRLF))"
    using "3.prems" by (intro Index_blank_later) simp_all
  moreover from 3 have "Index ?t (CRLF @ CRLF) = Some (length (Join (l' # ls) CRLF))"
    by simp
  ultimately show ?case
    by simp
qed

subsection \<open>The header map of a list of header lines\<close>

lemma update_new: "k \<notin> fst ` set acc \<Longrightarrow> AList.update k v acc = acc @ [(k, v)]"
  by (induction acc) auto

lemma filter_update_other:
  "\<not> P k \<Longrightarrow> filter (\<lambda>(k, v). P k) (AList.update k v acc) = filter (\<lambda>(k, v). P k) acc"
  by (induction acc) auto

lemma filter_update_first:
  assumes "P k" and "filter (\<lambda>(k, v). P k) acc = []"
  shows "filter (\<lambda>(k, v). P k) (AList.update k v acc) = [(k, v)]"
proof -
  from assms have "k \<notin> fst ` set acc"
    by (auto simp: filter_empty_conv)
  with assms show ?thesis
    by (simp add: update_new)
qed

lemma Index_colon: "CHR '':'' \<notin> set k \<Longrightarrow> Index (k @ CHR '':'' # v) '':'' = Some (length k)"
  by (rule Index_single_first)

lemma parseHeaderLines_declared:
  assumes "\<forall>(k, v)\<in>set decl. CHR '':'' \<notin> set k"
  shows "\<exists>headers. parseHeaderLines (map (\<lambda>(k, v). k @ '':'' @ v) decl) acc = Inr headers \<and>
    (length (filter (\<lambda>(k, v). EqualFold k name) acc) +
     length (filter (\<lambda>(k, v). EqualFold (TrimSpace k) name) decl) \<le> 1 \<longrightarrow>
     filter (\<lambda>(k, v). EqualFold k name) headers =
       filter (\<lambda>(k, v). EqualFold k name) acc @
       map (\<lambda>(k, v). (TrimSpace k, TrimSpace v))
         (filter (\<lambda>(k, v). EqualFold (TrimSpace k) name) decl))"
  using assms
proof (induction decl arbitrary: acc)
  case Nil
  show ?case by simp
next
  case (Cons kv decl)
  obtain k v where kv: "kv = (k, v)" by (cases kv)
  let ?Q = "\<lambda>(k, v). EqualFold k name"
  let ?Qt = "\<lambda>(k, v). EqualFold (TrimSpace k) name"
  let ?acc = "AList.update (TrimSpace k) (TrimSpace v) acc"
  from Cons.prems kv have k: "CHR '':'' \<notin> set k" and rest: "\<forall>(k, v)\<in>set decl. CHR '':'' \<notin> set k"
    by auto
  from Cons.IH [OF rest, of ?acc] obtain headers
    where h: "parseHeaderLines (map (\<lambda>(k, v). k @ '':'' @ v) decl) ?acc = Inr headers"
      and f: "length (filter ?Q ?acc) + length (filter ?Qt decl) \<le> 1 \<longrightarrow>
        filter ?Q headers = filter ?Q ?acc @ map (\<lambda>(k, v). (TrimSpace k, TrimSpace v)) (filter ?Qt decl)"
    by blast
  have p: "parseHeaderLines (map (\<lambda>(k, v). k @ '':'' @ v) (kv # decl)) acc = Inr headers"
    using h kv by (simp add: Index_colon [OF k] Let_def)
  have "filter ?Q headers =
       filter ?Q acc @ map (\<lambda>(k, v). (TrimSpace k, TrimSpace v)) (filter ?Qt (kv # decl))"
    if le: "length (filter ?Q acc) + length (filter ?Qt (kv # decl)) \<le> 1"
  proof (cases "EqualFold (TrimSpace k) name")
    case True
    with le kv have e: "filter ?Q acc = []" "filter ?Qt decl = []"
      by simp_all
    from True e(1) have "filter ?Q ?acc = [(TrimSpace k, TrimSpace v)]"
      by (rule filter_update_first [where P = "\<lambda>k. EqualFold k name"])
    with f e True kv show ?thesis
      by simp
  next
    case False
    then have "filter ?Q ?acc = filter ?Q acc"
      by (rule filter_update_other [where P = "\<lambda>k. EqualFold k name"])
    with f le False kv show ?thesis
      by simp
  qed
  with p show ?case by blast
qed

lemma getHeader_filter:
  assumes "rangeOrder visit" and "length (filter (\<lambda>(k, v). EqualFold k name) headers) \<le> 1"
  shows "getHeader visit headers name =
    (case filter (\<lambda>(k, v). EqualFold k name) headers of [] \<Rightarrow> [] | (k, v) # _ \<Rightarrow> v)"
proof -
  from assms have "filter (\<lambda>(k, v). EqualFold k name) headers =
      filter (\<lambda>(k, v). EqualFold k name) (visit headers)"
    by (auto simp: rangeOrder_def intro!: filter_rearranged)
  then show ?thesis
    by (simp add: getHeader_def find_filter split: list.splits)
qed

subsection \<open>The text collected for a message\<close>

lemma collected_text:
  assumes "TrimRightSpace B \<noteq> []"
  shows "TrimSpace (concat (map headerLine ((k1, v1) # d)) @ CRLF @ B) =
    Join (map (\<lambda>(k, v). k @ '':'' @ v) ((TrimLeftSpace k1, v1) # d)) CRLF @ CRLF @ CRLF @
    TrimRightSpace B"
proof -
  let ?y = "'':'' @ v1 @ CRLF @ concat (map headerLine d) @ CRLF @ B"
  let ?decl = "(TrimLeftSpace k1, v1) # d"
  let ?x = "concat (map headerLine ?decl) @ CRLF"
  have "?y \<noteq> []" "(of_char (hd ?y) :: nat) < 128" "\<not> asciiSpace (hd ?y)"
    by (simp_all add: asciiSpace_def)
  then have "TrimLeftSpace (k1 @ ?y) = TrimLeftSpace k1 @ ?y"
    by (rule TrimLeftSpace_append)
  then have l: "TrimLeftSpace (concat (map headerLine ((k1, v1) # d)) @ CRLF @ B) = ?x @ B"
    by (simp add: headerLine_def)
  have "?x \<noteq> []" "(of_char (last ?x) :: nat) < 128"
    by (simp_all add: CRLF_def LF_def)
  from TrimRightSpace_append [OF this assms]
  have r: "TrimRightSpace (?x @ B) = ?x @ TrimRightSpace B" .
  have m: "map headerLine ?decl = map (\<lambda>l. l @ CRLF) (map (\<lambda>(k, v). k @ '':'' @ v) ?decl)"
    by (simp add: headerLine_def split_def)
  have "concat (map (\<lambda>l. l @ CRLF) (map (\<lambda>(k, v). k @ '':'' @ v) ?decl)) =
      Join (map (\<lambda>(k, v). k @ '':'' @ v) ?decl) CRLF @ CRLF"
    by (rule concat_lines) simp
  with m have "concat (map headerLine ?decl) =
      Join (map (\<lambda>(k, v). k @ '':'' @ v) ?decl) CRLF @ CRLF"
    by (simp only:)
  with l r show ?thesis
    by (simp add: TrimSpace_def)
qed

lemma message_parses:
  assumes "decl \<noteq> []"
    and "\<forall>(k, v)\<in>set decl. CHR '':'' \<notin> set k \<and> CR \<notin> set (k @ v) \<and> LF \<notin> set (k @ v)"
    and "TrimRightSpace B \<noteq> []"
  obtains headers where
    "parseHeadersAndBody (TrimSpace (concat (map headerLine decl) @ CRLF @ B)) =
       Inr (headers, TrimRightSpace B)"
    and "\<And>name. length (declared decl name) \<le> 1 \<Longrightarrow>
       map snd (filter (\<lambda>(k, v). EqualFold k name) headers) = declared decl name"
proof -
  obtain k1 v1 d where decl: "decl = (k1, v1) # d"
    using assms(1) by (cases decl) auto
  let ?line = "\<lambda>(k, v). k @ '':'' @ v"
  let ?decl = "(TrimLeftSpace k1, v1) # d"
  let ?hb = "Join (map ?line ?decl) CRLF"
  let ?body = "TrimRightSpace B"
  let ?raw = "TrimSpace (concat (map headerLine decl) @ CRLF @ B)"
  have raw: "?raw = ?hb @ CRLF @ CRLF @ ?body"
    unfolding decl by (rule collected_text [OF assms(3)])
  have chars: "\<forall>(k, v)\<in>set ?decl. CHR '':'' \<notin> set k \<and> CR \<notin> set (k @ v) \<and> LF \<notin> set (k @ v)"
    using assms(2) TrimLeftSpace_set [of k1] unfolding decl by auto
  then have lines: "\<forall>l\<in>set (map ?line ?decl). l \<noteq> [] \<and> CR \<notin> set l \<and> LF \<notin> set l"
    by (auto simp: CR_def LF_def)
  have "Index (?hb @ CRLF @ CRLF @ ?body) (CRLF @ CRLF) = Some (length ?hb)"
    by (rule Index_blank_Join [OF _ lines]) simp
  moreover have "Split ?hb CRLF = map ?line ?decl"
    using lines by (intro Split_Join) auto
  moreover from chars have "\<forall>(k, v)\<in>set ?decl. CHR '':'' \<notin> set k"
    by auto
  from parseHeaderLines_declared [OF this, of "[]"]
  obtain headers where h: "parseHeaderLines (map ?line ?decl) [] = Inr headers"
    by blast
  ultimately have p: "parseHeadersAndBody ?raw = Inr (headers, ?body)"
    by (simp add: raw parseHeadersAndBody_Index)
  have "map snd (filter (\<lambda>(k, v). EqualFold k name) headers) = declared decl name"
    if le: "length (declared decl name) \<le> 1" for name
  proof -
    let ?Qt = "\<lambda>(k, v). EqualFold (TrimSpace k) name"
    have same: "map (\<lambda>(k, v). (TrimSpace k, TrimSpace v)) (filter ?Qt ?decl) =
        map (\<lambda>(k, v). (TrimSpace k, TrimSpace v)) (filter ?Qt decl)"
      by (simp add: decl TrimSpace_TrimLeftSpace)
    then have "length (filter ?Qt ?decl) = length (filter ?Qt decl)"
      by (metis length_map)
    with le have le': "length (filter (\<lambda>(k, v). EqualFold k name) []) + length (filter ?Qt ?decl) \<le> 1"
      by (simp add: declared_def)
    from parseHeaderLines_declared [OF \<open>\<forall>(k, v)\<in>set ?decl. CHR '':'' \<notin> set k\<close>,
        where acc = "[]" and name = name] h le'
    have "filter (\<lambda>(k, v). EqualFold k name) headers =
        map (\<lambda>(k, v). (TrimSpace k, TrimSpace v)) (filter ?Qt ?decl)"
      by simp
    with same have "filter (\<lambda>(k, v). EqualFold k name) headers =
        map (\<lambda>(k, v). (TrimSpace k, TrimSpace v)) (filter ?Qt decl)"
      by simp
    then show ?thesis
      by (simp add: declared_def split_def comp_def)
  qed
  with p that show ?thesis
    by blast
qed

text \<open>
  Claim C1, as amended.  The client declares the envelope with MAIL FROM and RCPT TO and
  then sends DATA, a message and the end marker.  The message is made of header lines
  \<^verbatim>\<open>key:value\<close> (no colon in a key, no CR or LF inside a line), a
  blank line and body lines; the body is not blank; Subject is declared by exactly one
  header line, and Content-Type by none, or by one whose value is empty or is a
  well-formed media type that is not multipart.  Then the callback is invoked with the
  message whose From and To are the envelope addresses, whose Subject is the declared
  value trimmed of surrounding white space, whose PlainText is the body without its
  trailing white space, and whose HTMLText is empty (provided the six writer operations
  of the three replies succeed): the log of dispatched messages of the run starts with
  the messages dispatched before, followed by this one.
\<close>

theorem plain_message_session:
  assumes mail: "HasPrefix (TrimSpace l1) ''MAIL FROM''" "parseAddress (TrimSpace l1) = Inr sender"
    and rcpt: "HasPrefix (TrimSpace l2) ''RCPT TO''" "parseAddress (TrimSpace l2) = Inr recipient"
    and data: "HasPrefix (TrimSpace l3) ''DATA''"
    and decl:
      "\<forall>(k, v)\<in>set decl. CHR '':'' \<notin> set k \<and> CR \<notin> set (k @ v) \<and> LF \<notin> set (k @ v)"
    and lines: "\<forall>l\<in>set (map headerLine decl @ CRLF # bodyLines). TrimSpace l \<noteq> ''.''"
      "TrimSpace dot = ''.''"
    and body: "TrimRightSpace (concat bodyLines) \<noteq> []"
    and subj: "declared decl ''Subject'' = [subject]"
    and ctype: "length (declared decl ''Content-Type'') \<le> 1"
      "\<forall>c\<in>set (declared decl ''Content-Type''). c \<noteq> [] \<longrightarrow>
         snd (snd (ParseMediaType (lib srv) c)) = None \<and>
         \<not> HasPrefix (fst (ParseMediaType (lib srv) c)) ''multipart/''"
    and order: "\<forall>key. rangeOrder (mapOrder srv (parsed st) key)"
    and writes: "6 \<le> wops st"
  shows "prefix
    (dispatched st @
       [\<lparr>From = sender, To = recipient, Subject = subject,
         PlainText = TrimRightSpace (concat bodyLines), HTMLText = []\<rparr>])
    (dispatched (snd (commandLoop srv
       (st\<lparr>input := l1 # l2 # l3 # map headerLine decl @ CRLF # bodyLines @ dot # rest\<rparr>))))"
proof -
  let ?dataLines = "map headerLine decl @ CRLF # bodyLines"
  let ?body = "TrimRightSpace (concat bodyLines)"
  let ?visit = "mapOrder srv (parsed st)"
  let ?S = "\<lambda>(k, v). EqualFold k ''Subject''"
  let ?C = "\<lambda>(k, v). EqualFold k ''Content-Type''"
  from subj have ne: "decl \<noteq> []"
    by (auto simp: declared_def)
  obtain headers where
    p: "parseHeadersAndBody (TrimSpace (concat (map headerLine decl) @ CRLF @ concat bodyLines)) =
       Inr (headers, ?body)"
    and d: "\<And>name. length (declared decl name) \<le> 1 \<Longrightarrow>
       map snd (filter (\<lambda>(k, v). EqualFold k name) headers) = declared decl name"
    using message_parses [OF ne decl body] by blast
  from p have raw: "parseHeadersAndBody (TrimSpace (concat ?dataLines)) = Inr (headers, ?body)"
    by simp
  from d [of "''Subject''"] subj have "map snd (filter ?S headers) = [subject]"
    by simp
  then obtain key where fs: "filter ?S headers = [(key, subject)]"
    by (cases "filter ?S headers") (auto simp del: filter.simps)
  then have "(key, subject) \<in> set (filter ?S headers)"
    by simp
  then have s1: "(key, subject) \<in> set headers" and s2: "EqualFold key ''Subject''"
    by simp_all
  from fs have s3: "unambiguous headers ''Subject''"
    by (simp add: unambiguous_def)
  from order have s4: "rangeOrder (?visit ''Subject'')" and oc: "rangeOrder (?visit ''Content-Type'')"
    by simp_all
  from d [OF ctype(1)] have dc: "map snd (filter ?C headers) = declared decl ''Content-Type''" .
  from arg_cong [OF dc, of length] ctype(1) have lc: "length (filter ?C headers) \<le> 1"
    by simp
  let ?ct = "getHeader (?visit ''Content-Type'') headers ''Content-Type''"
  have ct: "?ct = [] \<or> ?ct \<in> set (declared decl ''Content-Type'')"
  proof (cases "filter ?C headers")
    case Nil
    with getHeader_filter [OF oc lc] show ?thesis by simp
  next
    case (Cons kv kvs)
    obtain k v where "kv = (k, v)" by (cases kv)
    with Cons getHeader_filter [OF oc lc] have "?ct = v" by simp
    moreover from Cons \<open>kv = (k, v)\<close> dc have "declared decl ''Content-Type'' = v # map snd kvs"
      by simp
    then have "v \<in> set (declared decl ''Content-Type'')"
      by simp
    ultimately show ?thesis by simp
  qed
  obtain mediaType params err where pm: "ParseMediaType (lib srv) ?ct = (mediaType, params, err)"
    by (metis prod_cases3)
  have wf: "snd (snd (ParseMediaType (lib srv) ?ct)) = None \<and>
         \<not> HasPrefix (fst (ParseMediaType (lib srv) ?ct)) ''multipart/''" if "?ct \<noteq> []"
  proof -
    from that ct have "?ct \<in> set (declared decl ''Content-Type'')"
      by blast
    with ctype(2) that show ?thesis
      by blast
  qed
  have c2: "\<not> HasPrefix mediaType ''multipart/''"
  proof (cases "?ct = []")
    case True
    with pm have "mediaType = []" by (simp add: ParseMediaType_empty)
    then show ?thesis by (simp add: HasPrefix_def)
  next
    case False
    from wf [OF False] show ?thesis by (simp add: pm)
  qed
  have c3: "?ct = [] \<or> err = None"
  proof (cases "?ct = []")
    case True
    then show ?thesis by simp
  next
    case False
    from wf [OF False] show ?thesis by (simp add: pm)
  qed
  from transaction_of_parsed_message [OF mail rcpt data lines raw s1 s2 s3 s4 pm c2 c3 writes,
      of rest]
  show ?thesis
    by simp
qed

text \<open>
  Claim C1 as stated fails.  The whole message text is trimmed before it is split, so
  a body sent as \<^verbatim>\<open>hello\<close> followed by three blanks reaches the callback as
  \<^verbatim>\<open>hello\<close>, and a message with an empty body has no blank-line separator left: it is
  rejected and nothing is dispatched.  A Subject header folded over two lines is
  rejected too, its second line having no colon.  When Subject is declared under two
  keys that differ in letter case, which value is dispatched depends on the order of the
  map traversal.
\<close>

theorem plain_message_counterexample:
  "dispatched (snd (handleConnection demoServer demoTrailingBlanks 20)) =
     [\<lparr>From = ''sender@example.com'', To = ''rcpt@example.com'', Subject = ''s'',
       PlainText = ''hello'', HTMLText = []\<rparr>] \<and>
   ''hello'' \<noteq> demoBody \<and> ''hello'' \<noteq> demoBody @ CRLF \<and>
   dispatched (snd (handleConnection demoServer demoEmptyBody 20)) = [] \<and>
   dispatched (snd (handleConnection demoServer demoFoldedSubject 20)) = [] \<and>
   map Subject (dispatched (snd (handleConnection demoServer demoSubjectTwice 20))) = [''first''] \<and>
   map Subject (dispatched (snd (handleConnection demoServerReversed demoSubjectTwice 20))) =
     [''second'']"
proof -
  have "dispatched (snd (handleConnection demoServer demoTrailingBlanks 20)) =
     [\<lparr>From = ''sender@example.com'', To = ''rcpt@example.com'', Subject = ''s'',
       PlainText = ''hello'', HTMLText = []\<rparr>]"
    by code_simp
  moreover have "''hello'' \<noteq> demoBody \<and> ''hello'' \<noteq> demoBody @ CRLF"
    by (simp add: demoBody_def)
  moreover have "dispatched (snd (handleConnection demoServer demoEmptyBody 20)) = []"
    by code_simp
  moreover have "dispatched (snd (handleConnection demoServer demoFoldedSubject 20)) = []"
    by code_simp
  moreover have
    "map Subject (dispatched (snd (handleConnection demoServer demoSubjectTwice 20))) = [''first'']"
    by code_simp
  moreover have
    "map Subject (dispatched (snd (handleConnection demoServerReversed demoSubjectTwice 20))) =
       [''second'']"
    by code_simp
  ultimately show ?thesis by blast
qed

theorem plain_message_session_witness:
  "prefix
     [\<lparr>From = ''sender@example.com'', To = ''rcpt@example.com'', Subject = ''test subject'',
       PlainText = ''test body'', HTMLText = []\<rparr>]
     (dispatched (snd (commandLoop demoServer
        (demoSession\<lparr>input := (''MAIL FROM:<sender@example.com>'' @ CRLF) #
           (''RCPT TO:<rcpt@example.com>'' @ CRLF) # (''DATA'' @ CRLF) #
           map headerLine demoHeaders @ CRLF # [''test body  '' @ CRLF] @
           (''.'' @ CRLF) # [''QUIT'' @ CRLF]\<rparr>))))"
proof -
  have mail: "HasPrefix (TrimSpace (''MAIL FROM:<sender@example.com>'' @ CRLF)) ''MAIL FROM''"
    "parseAddress (TrimSpace (''MAIL FROM:<sender@example.com>'' @ CRLF)) = Inr ''sender@example.com''"
    by code_simp+
  have rcpt: "HasPrefix (TrimSpace (''RCPT TO:<rcpt@example.com>'' @ CRLF)) ''RCPT TO''"
    "parseAddress (TrimSpace (''RCPT TO:<rcpt@example.com>'' @ CRLF)) = Inr ''rcpt@example.com''"
    by code_simp+
  have data: "HasPrefix (TrimSpace (''DATA'' @ CRLF)) ''DATA''"
    by code_simp
  have decl:
    "\<forall>(k, v)\<in>set demoHeaders. CHR '':'' \<notin> set k \<and> CR \<notin> set (k @ v) \<and> LF \<notin> set (k @ v)"
    by code_simp
  have lines: "\<forall>l\<in>set (map headerLine demoHeaders @ CRLF # [''test body  '' @ CRLF]). TrimSpace l \<noteq> ''.''"
    "TrimSpace (''.'' @ CRLF) = ''.''"
    by code_simp+
  have t: "TrimRightSpace (concat [''test body  '' @ CRLF]) = ''test body''"
    by code_simp
  then have body: "TrimRightSpace (concat [''test body  '' @ CRLF]) \<noteq> []"
    by simp
  have subj: "declared demoHeaders ''Subject'' = [''test subject'']"
    by code_simp
  have none: "declared demoHeaders ''Content-Type'' = []"
    by code_simp
  then have ctype: "length (declared demoHeaders ''Content-Type'') \<le> 1"
    "\<forall>c\<in>set (declared demoHeaders ''Content-Type''). c \<noteq> [] \<longrightarrow>
         snd (snd (ParseMediaType (lib demoServer) c)) = None \<and>
         \<not> HasPrefix (fst (ParseMediaType (lib demoServer) c)) ''multipart/''"
    by simp_all
  have order: "\<forall>key. rangeOrder (mapOrder demoServer (parsed demoSession) key)"
    by (simp add: rangeOrder_def demoServer_def)
  have writes: "6 \<le> wops demoSession"
    by (simp add: demoSession_def)
  from plain_message_session [OF mail rcpt data decl lines body subj ctype order writes,
      of "[''QUIT'' @ CRLF]"]
  show ?thesis
    by (simp only: t) (simp add: demoSession_def)
qed

subsection \<open>Shutdown\<close>

lemma run_snoc: "run (evs @ [e]) c = occur e (run evs c)"
  by (simp add: run_def)

lemma Close_listener: "listener s = listener s0 \<Longrightarrow> fst (Close s) = fst (Close s0)"
  by (simp add: Close_def split: option.splits)

lemma Close_effect:
  "listener (snd (Close s)) = map_option Suc (listener s) \<and>
   doneClosed (snd (Close s)) = doneClosed s \<and> wg (snd (Close s)) = wg s"
  by (simp add: Close_def split: option.splits)

lemma firstCall_run:
  assumes "\<not> doneClosed s0"
  shows "firstCall s0 evs (run evs (AtSelect, s0))"
proof (induction evs rule: rev_induct)
  case Nil
  with assms show ?case by (simp add: firstCall_def run_def)
next
  case (snoc e evs)
  obtain pc s where c: "run evs (AtSelect, s0) = (pc, s)"
    by (cases "run evs (AtSelect, s0)")
  with snoc have inv: "firstCall s0 evs (pc, s)" by simp
  show ?case
  proof (cases e)
    case ShutdownRuns
    show ?thesis
    proof (cases pc)
      case AtClose
      with inv ShutdownRuns c Close_listener [of s s0] Close_effect [of s] show ?thesis
        by (cases "Close s") (auto simp: firstCall_def run_snoc)
    qed (use inv ShutdownRuns c in \<open>auto simp: firstCall_def run_snoc\<close>)
  next
    case SessionEnds
    with inv c show ?thesis
      by (cases pc) (auto simp: firstCall_def run_snoc)
  next
    case ConnectionAccepted
    with inv c show ?thesis
      by (cases pc) (auto simp: firstCall_def run_snoc)
  qed
qed

lemma laterCall_run:
  assumes "doneClosed s0"
  shows "case run evs (AtSelect, s0) of
           (pc, s) \<Rightarrow>
             doneClosed s \<and> listener s = listener s0 \<and>
             pc = (if ShutdownRuns \<in> set evs
                   then Finished (Some (errors_New ''server already closed'')) else AtSelect)"
proof (induction evs rule: rev_induct)
  case Nil
  with assms show ?case by (simp add: run_def)
next
  case (snoc e evs)
  then show ?case
    by (cases e; cases "run evs (AtSelect, s0)") (auto simp: run_snoc)
qed

lemma run_sessions_end:
  "run (replicate n SessionEnds) (pc, s) = (pc, s\<lparr>wg := wg s - n\<rparr>)"
proof (induction n arbitrary: s)
  case 0
  show ?case by (simp add: run_def)
next
  case (Suc n)
  have "run (replicate (Suc n) SessionEnds) (pc, s) =
          run (replicate n SessionEnds) (occur SessionEnds (pc, s))"
    by (simp add: run_def)
  with Suc show ?case by simp
qed

lemma run_Cons: "run (e # evs) c = run evs (occur e c)"
  by (simp add: run_def)

lemma run_append: "run (evs @ evs') c = run evs' (run evs c)"
  by (simp add: run_def)

lemma shutdown_completes:
  assumes "\<not> doneClosed s"
  shows "run (ShutdownRuns # replicate (wg s) SessionEnds @ [ShutdownRuns, ShutdownRuns])
           (AtSelect, s) =
         (Finished (fst (Close s)),
          s\<lparr>doneClosed := True, wg := 0, listener := map_option Suc (listener s)\<rparr>)"
proof -
  have 1: "occur ShutdownRuns (AtSelect, s) = (AtWait, s\<lparr>doneClosed := True\<rparr>)"
    using assms by simp
  have 2: "run (replicate (wg s) SessionEnds) (AtWait, s\<lparr>doneClosed := True\<rparr>) =
             (AtWait, s\<lparr>doneClosed := True, wg := 0\<rparr>)"
    by (simp add: run_sessions_end)
  have 3: "occur ShutdownRuns (AtWait, s\<lparr>doneClosed := True, wg := 0\<rparr>) =
             (AtClose, s\<lparr>doneClosed := True, wg := 0\<rparr>)"
    by simp
  have 4: "occur ShutdownRuns (AtClose, s\<lparr>doneClosed := True, wg := 0\<rparr>) =
         (Finished (fst (Close s)),
          s\<lparr>doneClosed := True, wg := 0, listener := map_option Suc (listener s)\<rparr>)"
    by (cases "listener s") (simp_all add: Close_def)
  show ?thesis
    by (simp only: run_Cons run_append 1 2 3 4) (simp add: run_def)
qed

text \<open>
  Claim C8.  A call of \<^verbatim>\<open>Shutdown\<close> on a server whose \<^verbatim>\<open>done\<close> channel is open
  first closes the channel (the signal to the acceptor), then waits, and closes the
  listening socket last: whatever else happens meanwhile, the socket is untouched
  until the call is past the wait, the call gets past the wait only after at least
  as many sessions have ended as were in flight when it started, and when it has
  returned the socket has been closed exactly once by it and the result is that of
  \<^verbatim>\<open>Close\<close>.  If the sessions in flight end, the call does return.  A call on a
  server whose channel is closed already (every call after the first) returns the
  error \<^verbatim>\<open>server already closed\<close> at its first step and leaves the listening socket
  as it is.
\<close>

theorem shutdown_once:
  "(\<not> doneClosed s \<and> run evs (AtSelect, s) = (pc', s') \<longrightarrow>
      (pc' \<noteq> AtSelect \<longrightarrow> doneClosed s') \<and>
      (pc' = AtSelect \<or> pc' = AtWait \<or> pc' = AtClose \<longrightarrow> listener s' = listener s) \<and>
      (pc' = AtClose \<or> pc' = Finished r \<longrightarrow> wg s \<le> count_list evs SessionEnds) \<and>
      (pc' = Finished r \<longrightarrow>
         listener s' = map_option Suc (listener s) \<and> r = fst (Close s))) \<and>
   (\<not> doneClosed s \<longrightarrow>
      run (ShutdownRuns # replicate (wg s) SessionEnds @ [ShutdownRuns, ShutdownRuns])
        (AtSelect, s) =
      (Finished (fst (Close s)),
       s\<lparr>doneClosed := True, wg := 0, listener := map_option Suc (listener s)\<rparr>)) \<and>
   (doneClosed s \<and> run evs (AtSelect, s) = (pc', s') \<longrightarrow>
      doneClosed s' \<and> listener s' = listener s \<and>
      pc' = (if ShutdownRuns \<in> set evs
             then Finished (Some (errors_New ''server already closed'')) else AtSelect))"
proof (intro conjI impI)
  assume a: "\<not> doneClosed s \<and> run evs (AtSelect, s) = (pc', s')"
  with firstCall_run [of s evs] have f: "firstCall s evs (pc', s')"
    by simp
  from f show "pc' \<noteq> AtSelect \<Longrightarrow> doneClosed s'"
    by (cases pc') (simp_all add: firstCall_def)
  from f show "pc' = AtSelect \<or> pc' = AtWait \<or> pc' = AtClose \<Longrightarrow> listener s' = listener s"
    by (cases pc') (simp_all add: firstCall_def)
  from f show "pc' = AtClose \<or> pc' = Finished r \<Longrightarrow> wg s \<le> count_list evs SessionEnds"
    by (cases pc') (simp_all add: firstCall_def)
  from f show "pc' = Finished r \<Longrightarrow> listener s' = map_option Suc (listener s)"
    by (simp add: firstCall_def)
  from f show "pc' = Finished r \<Longrightarrow> r = fst (Close s)"
    by (simp add: firstCall_def)
next
  assume "\<not> doneClosed s"
  then show "run (ShutdownRuns # replicate (wg s) SessionEnds @ [ShutdownRuns, ShutdownRuns])
        (AtSelect, s) =
      (Finished (fst (Close s)),
       s\<lparr>doneClosed := True, wg := 0, listener := map_option Suc (listener s)\<rparr>)"
    by (rule shutdown_completes)
next
  assume a: "doneClosed s \<and> run evs (AtSelect, s) = (pc', s')"
  with laterCall_run [of s evs]
  have l: "doneClosed s' \<and> listener s' = listener s \<and>
      pc' = (if ShutdownRuns \<in> set evs
             then Finished (Some (errors_New ''server already closed'')) else AtSelect)"
    by simp
  from l show "doneClosed s'" by simp
  from l show "listener s' = listener s" by simp
  from l show "pc' = (if ShutdownRuns \<in> set evs
             then Finished (Some (errors_New ''server already closed'')) else AtSelect)"
    by simp
qed

theorem shutdown_once_witness:
  "run [ShutdownRuns, SessionEnds, SessionEnds, ShutdownRuns, ShutdownRuns] (AtSelect, demoRunning) =
     (Finished None, demoStopped) \<and>
   run [ShutdownRuns] (AtSelect, demoStopped) =
     (Finished (Some (errors_New ''server already closed'')), demoStopped) \<and>
   (2::nat) \<le> count_list [ShutdownRuns, SessionEnds, ShutdownRuns, SessionEnds, ShutdownRuns, ShutdownRuns]
     SessionEnds"
proof -
  have open': "\<not> doneClosed demoRunning"
    by (simp add: demoRunning_def)
  have closed: "doneClosed demoStopped"
    by (simp add: demoStopped_def)
  let ?evs = "[ShutdownRuns, SessionEnds, ShutdownRuns, SessionEnds, ShutdownRuns, ShutdownRuns]"
  have r1: "run ?evs (AtSelect, demoRunning) = (Finished None, demoStopped)"
    by code_simp
  have r2: "run [ShutdownRuns] (AtSelect, demoStopped) =
     (Finished (Some (errors_New ''server already closed'')), demoStopped)"
    by code_simp
  from shutdown_once [of demoRunning ?evs "Finished None" demoStopped None] open' r1
  have "wg demoRunning \<le> count_list ?evs SessionEnds"
    by blast
  moreover from shutdown_once [of demoRunning] open'
  have "run (ShutdownRuns # replicate (wg demoRunning) SessionEnds @ [ShutdownRuns, ShutdownRuns])
        (AtSelect, demoRunning) =
      (Finished (fst (Close demoRunning)),
       demoRunning\<lparr>doneClosed := True, wg := 0, listener := map_option Suc (listener demoRunning)\<rparr>)"
    by blast
  moreover from shutdown_once [of demoStopped "[ShutdownRuns]"
      "Finished (Some (errors_New ''server already closed''))" demoStopped] closed r2
  have "listener demoStopped = listener demoStopped" by blast
  ultimately show ?thesis
    using r2 by (simp add: demoRunning_def demoStopped_def Close_def listener_Close_def numeral_2_eq_2)
qed

end
